theory Spec2Isabelle
  imports Main "HOL-Library.Word"
begin

unbundle bit_operations_syntax

section \<open>Machine types\<close>

text \<open>The AVR types of the sources: \<open>uint8\<close>, \<open>uint16\<close> and \<open>uint32\<close> are unsigned
  words. Arduino's \<open>boolean\<close> holds a truth value wherever the code uses it as one
  (pin levels, flags of the state machine); the error register, declared
  \<open>volatile boolean\<close> and used as a bit mask, is the 8-bit integer that the Arduino
  core of that time defines \<open>boolean\<close> to be.\<close>

type_synonym uint8 = "8 word"
type_synonym uint16 = "16 word"
type_synonym uint32 = "32 word"

section \<open>Timing configuration (class Config)\<close>

definition kDefaultBaud :: uint16 where
  "kDefaultBaud = 9600"

definition kMaxSpaceBits :: uint8 where
  "kMaxSpaceBits = 6"

record Config =
  baud :: uint16
  prescaler_x64 :: bool
  counts_per_bit :: uint8
  counts_per_half_bit :: uint8
  clock_ticks_per_bit :: uint8
  clock_ticks_per_half_bit :: uint8
  clock_ticks_per_until_start_bit :: uint8

text \<open>\<open>Config::set\<close>; the fields carry the names of their accessors (\<open>baud()\<close>,
  \<open>counts_per_bit()\<close>, ...). The constant \<open>hardware_clock::kTicksPerMilli\<close> is declared in
  \<open>hardware_clock.h\<close>, which is not among the sources: it is the first parameter, an
  unsigned 32-bit constant, so that \<open>kTicksPerMilli * 1000\<close> is a 32-bit product.
  The quotient \<open>(16000000L / prescaling) / baud\<close> is computed in \<open>long\<close> and the
  other right-hand sides in \<open>int\<close>, none of them can overflow there, and every
  assignment to a \<open>uint8\<close> field keeps the low eight bits (\<open>of_nat\<close>).\<close>

definition Config_set :: "uint32 \<Rightarrow> uint16 \<Rightarrow> Config" where
  "Config_set kTicksPerMilli baud0 =
    (let b = (if baud0 < 1000 \<or> baud0 > 20000 then kDefaultBaud else baud0);
         x64 = (b < 8000);
         prescaling = (if x64 then 64 else 8 :: uint8);
         cpb = (of_nat ((16000000 div unat prescaling) div unat b) :: uint8);
         cphb = (of_nat (unat cpb div 2 + 2) :: uint8);
         ctpb = (of_nat (unat (kTicksPerMilli * 1000) div unat b) :: uint8);
         ctphb = (of_nat (unat ctpb div 2) :: uint8);
         ctpusb = (of_nat (unat ctpb * unat kMaxSpaceBits) :: uint8)
     in \<lparr> baud = b, prescaler_x64 = x64, counts_per_bit = cpb,
          counts_per_half_bit = cphb, clock_ticks_per_bit = ctpb,
          clock_ticks_per_half_bit = ctphb,
          clock_ticks_per_until_start_bit = ctpusb \<rparr>)"

section \<open>Frames\<close>

text \<open>Modelled from the spec: the frame type of \<open>lin_decoder.h\<close>, which is not among the
  sources (\<open>LinFrame\<close> with \<open>reset()\<close>, \<open>append_byte()\<close> and \<open>num_bytes()\<close> for the
  decoder, \<open>RxFrameBuffer\<close> with the fields \<open>bytes\<close> and \<open>num_bytes\<close> for the sketch).
  The spec's data model: an ordered sequence of up to \<open>kMaxBytes\<close> (10) payload bytes with
  a count, complete with at least \<open>kMinBytes\<close> (1) bytes. The array is a list of
  \<open>kMaxBytes\<close> bytes; \<open>reset\<close> clears the count and \<open>append_byte\<close> stores at the count
  and increments it.\<close>

definition kMinBytes :: uint8 where
  "kMinBytes = 1"

definition kMaxBytes :: uint8 where
  "kMaxBytes = 10"

record LinFrame =
  bytes :: "uint8 list"
  num_bytes :: uint8

definition reset :: "LinFrame \<Rightarrow> LinFrame" where
  "reset f = f\<lparr>num_bytes := 0\<rparr>"

definition append_byte :: "uint8 \<Rightarrow> LinFrame \<Rightarrow> LinFrame" where
  "append_byte v f =
     f\<lparr>bytes := (bytes f)[unat (num_bytes f) := v], num_bytes := num_bytes f + 1\<rparr>"

text \<open>The bytes a frame holds: the first \<open>num_bytes\<close> entries of its array.\<close>

definition frame_bytes :: "LinFrame \<Rightarrow> uint8 list" where
  "frame_bytes f = take (unat (num_bytes f)) (bytes f)"

definition frame_wf :: "LinFrame \<Rightarrow> bool" where
  "frame_wf f \<longleftrightarrow> length (bytes f) = unat kMaxBytes"

section \<open>Frame validation (arduino.ino)\<close>

text \<open>The summing loop of \<open>frameChecksum\<close>: \<open>while (nBytes-- > 0) sum += *(p++)\<close>, with
  the pointer as an index into the frame's array and a 16-bit sum.\<close>

fun sum_bytes :: "uint8 list \<Rightarrow> nat \<Rightarrow> nat \<Rightarrow> uint16 \<Rightarrow> uint16" where
  "sum_bytes bs p 0 s = s"
| "sum_bytes bs p (Suc n) s = sum_bytes bs (Suc p) n (s + ucast (bs ! p))"

text \<open>The carry loop of \<open>frameChecksum\<close>: add the high byte to the low byte until the
  high byte is zero.\<close>

function fold_carry :: "uint16 \<Rightarrow> uint16" where
  "fold_carry s =
     (let highByte = (ucast (drop_bit 8 s) :: uint8)
      in if highByte = 0 then s else fold_carry ((s AND 0xff) + ucast highByte))"
  by pat_completeness auto

lemma unat_low_byte: "unat ((s::uint16) AND 0xff) = unat s mod 256"
proof -
  have "(s AND 0xff) = take_bit 8 s"
    by (simp only: take_bit_eq_mask mask_eq_exp_minus_1) simp
  then have "s AND 0xff = s mod 256" by (simp add: take_bit_eq_mod)
  then show ?thesis by (simp add: unat_mod_distrib)
qed

lemma unat_high_byte: "unat (ucast (drop_bit 8 (s::uint16)) :: uint8) = unat s div 256"
proof -
  have "unat s < 65536" using unsigned_less [of s, where ?'a = nat] by simp
  then have "unat s div 256 < 256" by simp
  then show ?thesis
    by (simp add: unsigned_ucast_eq unat_drop_bit_eq drop_bit_eq_div take_bit_eq_mod
        unat_div_distrib)
qed

lemma unat_high_byte16:
  "unat (ucast (ucast (drop_bit 8 (s::uint16)) :: uint8) :: uint16) = unat s div 256"
proof -
  have "unat s < 65536" using unsigned_less [of s, where ?'a = nat] by simp
  then have "unat s div 256 < 256" by simp
  then show ?thesis
    by (simp only: unsigned_ucast_eq [where 'c=16] unat_high_byte take_bit_eq_mod) simp
qed

lemma high_byte_zero_iff:
  "(ucast (drop_bit 8 (s::uint16)) :: uint8) = 0 \<longleftrightarrow> unat s div 256 = 0"
  using unat_high_byte [of s] by (simp only: unat_eq_zero [symmetric])

lemma unat_fold_step:
  "unat (((s::uint16) AND 0xff) + ucast (ucast (drop_bit 8 s) :: uint8)) =
   unat s mod 256 + unat s div 256"
proof -
  have "unat s < 65536" using unsigned_less [of s, where ?'a = nat] by simp
  then have "unat s div 256 < 256" by simp
  then have "unat s mod 256 + unat s div 256 < 65536" by simp
  then show ?thesis
    by (simp only: unat_word_ariths unat_low_byte unat_high_byte16) simp
qed

termination fold_carry
proof (relation "measure unat")
  show "wf (measure unat)" by simp
next
  fix s :: uint16 and highByte :: uint8
  assume "highByte = ucast (drop_bit 8 s)" and "highByte \<noteq> 0"
  then have "unat s div 256 \<noteq> 0" using high_byte_zero_iff [of s] by blast
  moreover have "unat s = 256 * (unat s div 256) + unat s mod 256" by simp
  ultimately have "unat s mod 256 + unat s div 256 < unat s" by linarith
  then show "((s AND 0xff) + ucast highByte, s) \<in> measure unat"
    using \<open>highByte = ucast (drop_bit 8 s)\<close> by (simp only: in_measure unat_fold_step)
qed

declare fold_carry.simps [simp del]

definition setIdChecksumBits :: "uint8 \<Rightarrow> uint8" where
  "setIdChecksumBits idb =
    (let p1_at_b7 = (NOT 0 :: uint8);
         p0_at_b6 = (0 :: uint8);
         shifter = push_bit 2 idb;
         p1_at_b7 = p1_at_b7 XOR shifter;
         p0_at_b6 = p0_at_b6 XOR shifter;
         shifter = shifter + shifter;
         p1_at_b7 = p1_at_b7 XOR shifter;
         shifter = shifter + shifter;
         p1_at_b7 = p1_at_b7 XOR shifter;
         p0_at_b6 = p0_at_b6 XOR shifter;
         shifter = shifter + shifter;
         p0_at_b6 = p0_at_b6 XOR shifter;
         shifter = shifter + shifter;
         p1_at_b7 = p1_at_b7 XOR shifter;
         p0_at_b6 = p0_at_b6 XOR shifter
     in (p1_at_b7 AND 0x80) OR (p0_at_b6 AND 0x40) OR (idb AND 0x3f))"

text \<open>\<open>frameChecksum\<close>. The static \<open>kV2Checksum\<close>, read once from the configuration
  pin, is the first parameter: true sums from the identifier (LIN V2), false from the
  byte after it (LIN V1). \<open>nBytes\<close> is a \<open>uint8\<close> and wraps.\<close>

definition frameChecksum :: "bool \<Rightarrow> LinFrame \<Rightarrow> uint8" where
  "frameChecksum kV2Checksum buffer =
    (let startByte = (if kV2Checksum then 0 else 1 :: uint8);
         nBytes = num_bytes buffer - (startByte + 1);
         s = sum_bytes (bytes buffer) (unat startByte) (unat nBytes) 0
     in ucast (NOT (fold_carry s)))"

definition isFrameValid :: "bool \<Rightarrow> LinFrame \<Rightarrow> bool" where
  "isFrameValid kV2Checksum buffer =
    (let n = num_bytes buffer in
     if n \<noteq> 1 \<and> (n < 3 \<or> n > 10) then False
     else let id_byte = bytes buffer ! 0 in
       if id_byte \<noteq> setIdChecksumBits id_byte then False
       else if n > 1 then
         (if bytes buffer ! (unat n - 1) \<noteq> frameChecksum kV2Checksum buffer then False
          else True)
       else True)"

section \<open>The frame validation as the specification words it\<close>

text \<open>The 8-bit sum with the carry folded back into the low byte until none remains.\<close>

function spec_fold :: "nat \<Rightarrow> nat" where
  "spec_fold s = (if s div 256 = 0 then s else spec_fold (s mod 256 + s div 256))"
  by pat_completeness auto
termination
proof (relation "measure id")
  show "wf (measure id)" by simp
next
  fix s :: nat
  assume "s div 256 \<noteq> 0"
  moreover have "s = 256 * (s div 256) + s mod 256" by simp
  ultimately have "s mod 256 + s div 256 < s" by linarith
  then show "(s mod 256 + s div 256, s) \<in> measure id" by simp
qed

declare spec_fold.simps [simp del]

text \<open>The checksum of a frame given by its bytes: the complement of the folded sum of
  the bytes without the last one, from the identifier in the enhanced variant and from
  the byte after it in the classic one.\<close>

definition spec_checksum :: "bool \<Rightarrow> uint8 list \<Rightarrow> nat" where
  "spec_checksum enhanced bs =
     255 - spec_fold (sum_list (map unat (butlast (if enhanced then bs else tl bs))))"

text \<open>The two most significant bits of the identifier byte are the parity bits that the
  identifier-parity algorithm computes from the six low bits.\<close>

definition spec_parity_ok :: "uint8 \<Rightarrow> bool" where
  "spec_parity_ok idb \<longleftrightarrow> idb AND 0xC0 = setIdChecksumBits (idb AND 0x3f) AND 0xC0"

definition spec_well_formed :: "bool \<Rightarrow> LinFrame \<Rightarrow> bool" where
  "spec_well_formed enhanced f \<longleftrightarrow>
     (let n = unat (num_bytes f); bs = frame_bytes f
      in (n = 1 \<or> (3 \<le> n \<and> n \<le> 10)) \<and> spec_parity_ok (hd bs) \<and>
         (n > 1 \<longrightarrow> unat (last bs) = spec_checksum enhanced bs))"

section \<open>The decoder (lin_decoder)\<close>

text \<open>Modelled from the spec: the error kinds of namespace \<open>errors\<close> in \<open>lin_decoder.h\<close>,
  which is not among the sources. The spec's data model: a bitmask of independent error
  kinds; they are single bits here, numbered in the order of the table
  \<open>kErrorBitNames\<close>.\<close>

definition FRAME_TOO_SHORT :: uint8 where
  "FRAME_TOO_SHORT = 0x01"

definition FRAME_TOO_LONG :: uint8 where
  "FRAME_TOO_LONG = 0x02"

definition START_BIT :: uint8 where
  "START_BIT = 0x04"

definition STOP_BIT :: uint8 where
  "STOP_BIT = 0x08"

definition SYNC_BYTE :: uint8 where
  "SYNC_BYTE = 0x10"

definition BUFFER_OVERRUN :: uint8 where
  "BUFFER_OVERRUN = 0x20"

definition OTHER :: uint8 where
  "OTHER = 0x40"

definition kMaxFrameBuffers :: uint8 where
  "kMaxFrameBuffers = 8"

definition DETECT_BREAK :: uint8 where
  "DETECT_BREAK = 1"

definition READ_DATA :: uint8 where
  "READ_DATA = 2"

text \<open>What the handler reads from the hardware at one point of its run: the levels of
  the two receive pins and the free-running 16-bit clock. The input of a handler run is
  the list of these readings in the order of the run: one for the sample taken on entry,
  one for the readings a busy-wait takes before its loop, one for each iteration of the
  loop. A run that needs more readings than the list holds has not returned: \<open>None\<close>.\<close>

record pins =
  rx1_isHigh :: bool
  rx2_isHigh :: bool
  ticksForIsr :: uint16

text \<open>The static variables of the decoder and the two repeater outputs (true is high).
  The debug strobes and the counter register of timer 2, which the handler only writes,
  are left out.\<close>

record decoder =
  config :: Config
  rx_frame_buffers :: "LinFrame list"
  head_frame_buffer :: uint8
  tail_frame_buffer :: uint8
  isr_marker :: uint8
  state :: uint8
  low_bits_counter :: uint8
  rx_from_lin1 :: bool
  bytes_read :: uint8
  bits_read_in_byte :: uint8
  byte_buffer :: uint8
  byte_buffer_bit_mask :: uint8
  error_flags :: uint8
  tx1_pin :: bool
  tx2_pin :: bool

subsection \<open>Ring buffer\<close>

definition setupBuffers :: "decoder \<Rightarrow> decoder" where
  "setupBuffers st = st\<lparr>head_frame_buffer := 0, tail_frame_buffer := 0\<rparr>"

definition incrementTailFrameBuffer :: "decoder \<Rightarrow> decoder" where
  "incrementTailFrameBuffer st =
     (let t = tail_frame_buffer st + 1
      in st\<lparr>tail_frame_buffer := (if t \<ge> kMaxFrameBuffers then 0 else t)\<rparr>)"

definition incrementHeadFrameBuffer :: "decoder \<Rightarrow> decoder" where
  "incrementHeadFrameBuffer st =
     (let h = head_frame_buffer st + 1
      in st\<lparr>head_frame_buffer := (if h \<ge> kMaxFrameBuffers then 0 else h)\<rparr>)"

text \<open>\<open>waitForIsrEnd\<close> spins until the volatile \<open>isr_marker\<close> differs from the value
  read first. Its input is the list of the values the successive reads return.\<close>

fun waitForIsrEnd_loop :: "uint8 \<Rightarrow> uint8 list \<Rightarrow> unit option" where
  "waitForIsrEnd_loop v [] = None"
| "waitForIsrEnd_loop v (m # ms) = (if v = m then waitForIsrEnd_loop v ms else Some ())"

definition waitForIsrEnd :: "uint8 list \<Rightarrow> unit option" where
  "waitForIsrEnd markers =
     (case markers of [] \<Rightarrow> None | v # ms \<Rightarrow> waitForIsrEnd_loop v ms)"

text \<open>\<open>readNextFrame\<close>: the result, the caller's buffer and the decoder afterwards.
  The decoder argument is the state at \<open>cli()\<close>, after the wait.\<close>

definition readNextFrame ::
  "uint8 list \<Rightarrow> LinFrame \<Rightarrow> decoder \<Rightarrow> (bool \<times> LinFrame \<times> decoder) option" where
  "readNextFrame markers buffer st =
     (case waitForIsrEnd markers of
        None \<Rightarrow> None
      | Some _ \<Rightarrow>
          if tail_frame_buffer st \<noteq> head_frame_buffer st
          then Some (True, rx_frame_buffers st ! unat (tail_frame_buffer st),
                     incrementTailFrameBuffer st)
          else Some (False, buffer, st))"

subsection \<open>Error flags\<close>

definition setErrorFlags :: "uint8 \<Rightarrow> decoder \<Rightarrow> decoder" where
  "setErrorFlags flags st = st\<lparr>error_flags := error_flags st OR flags\<rparr>"

definition getAndClearErrorFlags :: "decoder \<Rightarrow> uint8 \<times> decoder" where
  "getAndClearErrorFlags st = (error_flags st, st\<lparr>error_flags := 0\<rparr>)"

subsection \<open>Busy waits\<close>

fun wait_loop :: "uint16 \<Rightarrow> uint16 \<Rightarrow> pins list \<Rightarrow> pins list option" where
  "wait_loop clock_ticks base_clock [] = None"
| "wait_loop clock_ticks base_clock (p # env) =
     (let clock_diff = ticksForIsr p - base_clock
      in if clock_diff \<ge> clock_ticks then Some env
         else wait_loop clock_ticks base_clock env)"

definition wait :: "uint16 \<Rightarrow> pins list \<Rightarrow> pins list option" where
  "wait clock_ticks env =
     (case env of [] \<Rightarrow> None | p # env' \<Rightarrow> wait_loop clock_ticks (ticksForIsr p) env')"

definition isRxHigh :: "bool \<Rightarrow> pins \<Rightarrow> bool" where
  "isRxHigh use_rx1 p = (if use_rx1 then rx1_isHigh p else rx2_isHigh p)"

fun waitForRxLow_loop ::
  "uint16 \<Rightarrow> bool \<Rightarrow> uint16 \<Rightarrow> pins list \<Rightarrow> (bool \<times> pins list) option" where
  "waitForRxLow_loop max_clock_ticks use_rx1 base_clock [] = None"
| "waitForRxLow_loop max_clock_ticks use_rx1 base_clock (p # env) =
     (if \<not> isRxHigh use_rx1 p then Some (True, env)
      else let clock_diff = ticksForIsr p - base_clock
           in if clock_diff \<ge> max_clock_ticks then Some (False, env)
              else waitForRxLow_loop max_clock_ticks use_rx1 base_clock env)"

definition waitForRxLow :: "uint16 \<Rightarrow> bool \<Rightarrow> pins list \<Rightarrow> (bool \<times> pins list) option" where
  "waitForRxLow max_clock_ticks use_rx1 env =
     (case env of [] \<Rightarrow> None
      | p # env' \<Rightarrow> waitForRxLow_loop max_clock_ticks use_rx1 (ticksForIsr p) env')"

fun waitForRxHigh_loop ::
  "uint16 \<Rightarrow> bool \<Rightarrow> uint16 \<Rightarrow> pins list \<Rightarrow> (bool \<times> pins list) option" where
  "waitForRxHigh_loop max_clock_ticks use_rx1 base_clock [] = None"
| "waitForRxHigh_loop max_clock_ticks use_rx1 base_clock (p # env) =
     (if isRxHigh use_rx1 p then Some (True, env)
      else let clock_diff = ticksForIsr p - base_clock
           in if clock_diff \<ge> max_clock_ticks then Some (False, env)
              else waitForRxHigh_loop max_clock_ticks use_rx1 base_clock env)"

definition waitForRxHigh :: "uint16 \<Rightarrow> bool \<Rightarrow> pins list \<Rightarrow> (bool \<times> pins list) option" where
  "waitForRxHigh max_clock_ticks use_rx1 env =
     (case env of [] \<Rightarrow> None
      | p # env' \<Rightarrow> waitForRxHigh_loop max_clock_ticks use_rx1 (ticksForIsr p) env')"

text \<open>\<open>waitForResponseStartBit\<close>: 1 for a high-to-low transition of channel 1, 2 for one
  of channel 2, 0 for the timeout. Channel 2 is read only when channel 1 shows no
  transition, and the clock only when neither does.\<close>

fun waitForResponseStartBit_loop ::
  "uint16 \<Rightarrow> uint16 \<Rightarrow> bool \<Rightarrow> bool \<Rightarrow> pins list \<Rightarrow> (uint8 \<times> pins list) option" where
  "waitForResponseStartBit_loop max_clock_ticks base_clock state1 state2 [] = None"
| "waitForResponseStartBit_loop max_clock_ticks base_clock state1 state2 (p # env) =
     (let new_state1 = rx1_isHigh p in
      if state1 \<and> \<not> new_state1 then Some (1, env)
      else let new_state2 = rx2_isHigh p in
        if state2 \<and> \<not> new_state2 then Some (2, env)
        else let clock_diff = ticksForIsr p - base_clock
             in if clock_diff \<ge> max_clock_ticks then Some (0, env)
                else waitForResponseStartBit_loop max_clock_ticks base_clock
                       new_state1 new_state2 env)"

definition waitForResponseStartBit :: "uint16 \<Rightarrow> pins list \<Rightarrow> (uint8 \<times> pins list) option" where
  "waitForResponseStartBit max_clock_ticks env =
     (case env of [] \<Rightarrow> None
      | p # env' \<Rightarrow>
          waitForResponseStartBit_loop max_clock_ticks (ticksForIsr p)
            (rx1_isHigh p) (rx2_isHigh p) env')"

subsection \<open>State Detect-Break\<close>

definition StateDetectBreak_enter :: "decoder \<Rightarrow> decoder" where
  "StateDetectBreak_enter st =
     st\<lparr>state := DETECT_BREAK, low_bits_counter := 0, tx2_pin := True\<rparr>"

text \<open>\<open>StateReadData::enter\<close>, declared before the handler of Detect-Break that calls it.
  The result of \<open>waitForRxLow\<close> is not used.\<close>

definition StateReadData_enter :: "pins list \<Rightarrow> decoder \<Rightarrow> (decoder \<times> pins list) option" where
  "StateReadData_enter env st =
     (let h = unat (head_frame_buffer st);
          st1 = st\<lparr>state := READ_DATA, bytes_read := 0, bits_read_in_byte := 0,
                  rx_frame_buffers :=
                    (rx_frame_buffers st)[h := reset (rx_frame_buffers st ! h)],
                  rx_from_lin1 := True\<rparr>
      in case waitForRxLow 255 True env of
           None \<Rightarrow> None
         | Some (_, env1) \<Rightarrow> Some (st1, env1))"

definition StateDetectBreak_handle_isr ::
  "pins list \<Rightarrow> decoder \<Rightarrow> (decoder \<times> pins list) option" where
  "StateDetectBreak_handle_isr env st =
     (case env of
        [] \<Rightarrow> None
      | p # env1 \<Rightarrow>
          if rx1_isHigh p then Some (st\<lparr>tx2_pin := True, low_bits_counter := 0\<rparr>, env1)
          else
            let st1 = st\<lparr>tx2_pin := False, low_bits_counter := low_bits_counter st + 1\<rparr>
            in if low_bits_counter st1 < 10 then Some (st1, env1)
               else
                 (case waitForRxHigh 255 True env1 of
                    None \<Rightarrow> None
                  | Some (_, env2) \<Rightarrow>
                      (case wait (ucast (clock_ticks_per_half_bit (config st1))) env2 of
                         None \<Rightarrow> None
                       | Some env3 \<Rightarrow>
                           StateReadData_enter env3 (st1\<lparr>tx2_pin := True\<rparr>))))"

subsection \<open>State Read-Data\<close>

text \<open>The end of a frame in \<open>StateReadData::handle_isr\<close> (``Handle the case of no more
  bytes in this frame''): the minimum byte count, then the step of the head index with
  the overrun check.\<close>

definition StateReadData_frame_end :: "decoder \<Rightarrow> decoder" where
  "StateReadData_frame_end st =
     (if bytes_read st < kMinBytes
      then StateDetectBreak_enter (setErrorFlags FRAME_TOO_SHORT st)
      else
        let st1 = incrementHeadFrameBuffer st;
            st2 = (if tail_frame_buffer st1 = head_frame_buffer st1
                   then incrementTailFrameBuffer (setErrorFlags BUFFER_OVERRUN st1)
                   else st1)
        in StateDetectBreak_enter st2)"

text \<open>The stop bit in \<open>StateReadData::handle_isr\<close> (``Here when in a stop bit''), from the
  increment of \<open>bytes_read_\<close> to the end of the handler.\<close>

definition StateReadData_stop_bit ::
  "bool \<Rightarrow> pins list \<Rightarrow> decoder \<Rightarrow> (decoder \<times> pins list) option" where
  "StateReadData_stop_bit is_rx_high env st0 =
     (let st = st0\<lparr>bytes_read := bytes_read st0 + 1, bits_read_in_byte := 0\<rparr> in
      if \<not> is_rx_high
      then Some (StateDetectBreak_enter
                   (setErrorFlags (if bytes_read st = 0 then SYNC_BYTE else STOP_BIT) st), env)
      else if bytes_read st = 1 \<and> byte_buffer st \<noteq> 0x55
      then Some (StateDetectBreak_enter (setErrorFlags SYNC_BYTE st), env)
      else
        let h = unat (head_frame_buffer st);
            st1 = (if bytes_read st = 1 then st
                   else st\<lparr>rx_frame_buffers :=
                          (rx_frame_buffers st)
                            [h := append_byte (byte_buffer st) (rx_frame_buffers st ! h)]\<rparr>);
            max_ticks = (ucast (clock_ticks_per_until_start_bit (config st1)) :: uint16);
            waited =
              (if bytes_read st1 = 2
               then (case waitForResponseStartBit max_ticks env of
                       None \<Rightarrow> None
                     | Some (lin_channel, env1) \<Rightarrow>
                         Some (lin_channel \<noteq> 0,
                               st1\<lparr>rx_from_lin1 := (lin_channel \<noteq> 2)\<rparr>, env1))
               else (case waitForRxLow max_ticks (rx_from_lin1 st1) env of
                       None \<Rightarrow> None
                     | Some (r, env1) \<Rightarrow> Some (r, st1, env1)))
        in case waited of
             None \<Rightarrow> None
           | Some (has_more_bytes, st2, env1) \<Rightarrow>
               if \<not> has_more_bytes then Some (StateReadData_frame_end st2, env1)
               else if num_bytes (rx_frame_buffers st2 ! unat (head_frame_buffer st2))
                         \<ge> kMaxBytes
               then Some (StateDetectBreak_enter (setErrorFlags FRAME_TOO_LONG st2), env1)
               else Some (st2, env1))"

definition StateReadData_handle_isr ::
  "pins list \<Rightarrow> decoder \<Rightarrow> (decoder \<times> pins list) option" where
  "StateReadData_handle_isr env st0 =
     (case env of
        [] \<Rightarrow> None
      | p # env1 \<Rightarrow>
          let is_rx_high = (if rx_from_lin1 st0 then rx1_isHigh p else rx2_isHigh p);
              st = (if rx_from_lin1 st0 then st0\<lparr>tx2_pin := is_rx_high\<rparr>
                    else st0\<lparr>tx1_pin := is_rx_high\<rparr>)
          in if bits_read_in_byte st = 0
             then (if is_rx_high
                   then Some (StateDetectBreak_enter
                                (setErrorFlags
                                   (if bytes_read st = 0 then SYNC_BYTE else START_BIT) st),
                              env1)
                   else Some (st\<lparr>bits_read_in_byte := bits_read_in_byte st + 1,
                                 byte_buffer := 0, byte_buffer_bit_mask := 1\<rparr>, env1))
             else if bits_read_in_byte st \<le> 8
             then Some (st\<lparr>byte_buffer :=
                             (if is_rx_high then byte_buffer st OR byte_buffer_bit_mask st
                              else byte_buffer st),
                           byte_buffer_bit_mask := push_bit 1 (byte_buffer_bit_mask st),
                           bits_read_in_byte := bits_read_in_byte st + 1\<rparr>, env1)
             else StateReadData_stop_bit is_rx_high env1 st)"

subsection \<open>The interrupt handler and the initialization\<close>

definition TIMER2_COMPA_vect :: "pins list \<Rightarrow> decoder \<Rightarrow> (decoder \<times> pins list) option" where
  "TIMER2_COMPA_vect env st =
     (case (if state st = DETECT_BREAK then StateDetectBreak_handle_isr env st
            else if state st = READ_DATA then StateReadData_handle_isr env st
            else Some (StateDetectBreak_enter (setErrorFlags OTHER st), env)) of
        None \<Rightarrow> None
      | Some (st1, env1) \<Rightarrow> Some (st1\<lparr>isr_marker := isr_marker st1 + 1\<rparr>, env1))"

text \<open>The statics before the initialization: zero, with \<open>kMaxFrameBuffers\<close> empty frames.\<close>

definition static_init :: decoder where
  "static_init =
     \<lparr>config = \<lparr>baud = 0, prescaler_x64 = False, counts_per_bit = 0,
                counts_per_half_bit = 0, clock_ticks_per_bit = 0,
                clock_ticks_per_half_bit = 0, clock_ticks_per_until_start_bit = 0\<rparr>,
      rx_frame_buffers =
        replicate (unat kMaxFrameBuffers)
          \<lparr>bytes = replicate (unat kMaxBytes) 0, num_bytes = 0\<rparr>,
      head_frame_buffer = 0, tail_frame_buffer = 0, isr_marker = 0, state = 0,
      low_bits_counter = 0, rx_from_lin1 = False, bytes_read = 0, bits_read_in_byte = 0,
      byte_buffer = 0, byte_buffer_bit_mask = 0, error_flags = 0,
      tx1_pin = False, tx2_pin = False\<rparr>"

text \<open>The initialization \<open>lin_decoder::setup\<close>: the configuration, the pins (both
  outputs high), the buffers, the state and the error flags.\<close>

definition decoder_setup :: "uint32 \<Rightarrow> uint16 \<Rightarrow> decoder \<Rightarrow> decoder" where
  "decoder_setup kTicksPerMilli b st =
     (let st1 = st\<lparr>config := Config_set kTicksPerMilli b\<rparr>;
          st2 = st1\<lparr>tx1_pin := True, tx2_pin := True\<rparr>;
          st3 = setupBuffers st2;
          st4 = StateDetectBreak_enter st3
      in st4\<lparr>error_flags := 0\<rparr>)"

section \<open>Readings and the ring buffer from outside\<close>

text \<open>A reading, written shortly.\<close>

definition rd :: "bool \<Rightarrow> bool \<Rightarrow> uint16 \<Rightarrow> pins" where
  "rd r1 r2 t = \<lparr>rx1_isHigh = r1, rx2_isHigh = r2, ticksForIsr = t\<rparr>"

text \<open>A channel falls in a list of successive readings when one reading shows it high
  and the next one low.\<close>

fun falls :: "(pins \<Rightarrow> bool) \<Rightarrow> pins list \<Rightarrow> bool" where
  "falls ch (p # q # ps) = ((ch p \<and> \<not> ch q) \<or> falls ch (q # ps))"
| "falls ch ps = False"

text \<open>The clock advances by \<open>mx\<close> ticks within a list of readings: some reading after
  the first is at least \<open>mx\<close> ticks later, in the 16-bit difference that the waits
  compute.\<close>

definition clock_reaches :: "uint16 \<Rightarrow> pins list \<Rightarrow> bool" where
  "clock_reaches mx env =
     (case env of [] \<Rightarrow> False
      | q # env0 \<Rightarrow> \<exists>p\<in>set env0. mx \<le> ticksForIsr p - ticksForIsr q)"

text \<open>What the decoder does to the ring buffer for one frame with the bytes \<open>bs\<close>:
  \<open>StateReadData::enter\<close> resets the slot at the head index, the handler appends each
  byte after the sync byte to it, and the end of the frame is \<open>StateReadData_frame_end\<close>
  with \<open>bytes_read_\<close> counting the sync byte and the bytes of the frame.\<close>

definition write_frame :: "uint8 list \<Rightarrow> decoder \<Rightarrow> decoder" where
  "write_frame bs st =
     (let h = unat (head_frame_buffer st)
      in st\<lparr>rx_frame_buffers :=
             (rx_frame_buffers st)
               [h := foldl (\<lambda>f b. append_byte b f) (reset (rx_frame_buffers st ! h)) bs]\<rparr>)"

definition push_frame :: "uint8 list \<Rightarrow> decoder \<Rightarrow> decoder" where
  "push_frame bs st =
     StateReadData_frame_end ((write_frame bs st)\<lparr>bytes_read := of_nat (length bs) + 1\<rparr>)"

fun push_frames :: "uint8 list list \<Rightarrow> decoder \<Rightarrow> decoder" where
  "push_frames [] st = st"
| "push_frames (bs # bss) st = push_frames bss (push_frame bs st)"

text \<open>Successive calls of \<open>readNextFrame\<close> on one caller's buffer, one list of marker
  readings for each call: the result of each call with the bytes of the buffer after it.\<close>

fun readFrames ::
  "uint8 list list \<Rightarrow> LinFrame \<Rightarrow> decoder \<Rightarrow> (bool \<times> uint8 list) list option" where
  "readFrames [] buffer st = Some []"
| "readFrames (ms # mss) buffer st =
     (case readNextFrame ms buffer st of
        None \<Rightarrow> None
      | Some (r, buffer1, st1) \<Rightarrow>
          (case readFrames mss buffer1 st1 of
             None \<Rightarrow> None
           | Some rs \<Rightarrow> Some ((r, frame_bytes buffer1) # rs)))"

text \<open>The ring buffer seen from outside: the two indices as numbers below
  \<open>kMaxFrameBuffers\<close>, the error mask, and the bytes held by each of the eight slots, all
  of them frames with a full array.\<close>

definition ring :: "decoder \<Rightarrow> nat \<Rightarrow> nat \<Rightarrow> uint8 \<Rightarrow> uint8 list list \<Rightarrow> bool" where
  "ring st h t e slots \<longleftrightarrow>
     head_frame_buffer st = of_nat h \<and> tail_frame_buffer st = of_nat t \<and> h < 8 \<and> t < 8 \<and>
     error_flags st = e \<and> length (rx_frame_buffers st) = 8 \<and>
     (\<forall>f\<in>set (rx_frame_buffers st). frame_wf f) \<and>
     map frame_bytes (rx_frame_buffers st) = slots"

section \<open>Properties of the timing configuration\<close>

text \<open>C7: a request below 1000 or above 20000 is replaced by the default 9600 and every
  timing value is the one derived from 9600, so \<open>baud()\<close> answers 9600; a request
  inside the range is what \<open>baud()\<close> answers.\<close>

theorem C7_baud_clamped:
  "(b < 1000 \<or> b > 20000 \<longrightarrow>
      Config_set k b = Config_set k kDefaultBaud \<and> baud (Config_set k b) = 9600) \<and>
   (1000 \<le> b \<and> b \<le> 20000 \<longrightarrow> baud (Config_set k b) = b)"
  by (auto simp: Config_set_def kDefaultBaud_def Let_def)

theorem C7_baud_clamped_witness:
  "baud (Config_set 250 500) = 9600 \<and> Config_set 250 500 = Config_set 250 kDefaultBaud \<and>
   baud (Config_set 250 19200) = 19200"
proof -
  have lo: "(500::uint16) < 1000 \<or> (500::uint16) > 20000" by simp
  have mid: "(1000::uint16) \<le> 19200 \<and> (19200::uint16) \<le> 20000" by simp
  from lo mid C7_baud_clamped [of 500 250] C7_baud_clamped [of 19200 250]
  show ?thesis by blast
qed

lemma unat_of_nat_uint8: "n < 256 \<Longrightarrow> unat (of_nat n :: uint8) = n"
  by (simp only: unat_of_nat) simp

lemma unat_uint8_less: "unat (w :: uint8) < 256"
  using unsigned_less [of w, where ?'a = nat] by simp

lemma counts_per_bit_range:
  assumes "1000 \<le> b" and "b \<le> 20000"
  shows "31 \<le> unat (counts_per_bit (Config_set k b)) \<and>
         unat (counts_per_bit (Config_set k b)) \<le> 250"
proof -
  from assms have lo: "1000 \<le> unat b" and hi: "unat b \<le> 20000"
    by (simp_all add: word_le_nat_alt)
  show ?thesis
  proof (cases "b < 8000")
    case True
    then have u: "unat b < 8000" by (simp add: word_less_nat_alt)
    have "250000 div unat b \<le> 250000 div 1000"
      using lo by (intro div_le_mono2) simp_all
    moreover have "250000 div 7999 \<le> 250000 div unat b"
      using u lo by (intro div_le_mono2) simp_all
    ultimately have "31 \<le> 250000 div unat b \<and> 250000 div unat b \<le> 250" by simp
    with True assms show ?thesis
      by (simp add: Config_set_def Let_def unat_of_nat word_less_nat_alt word_le_nat_alt)
  next
    case False
    then have u: "8000 \<le> unat b" by (simp add: word_less_nat_alt)
    have "2000000 div unat b \<le> 2000000 div 8000"
      using u by (intro div_le_mono2) simp_all
    moreover have "2000000 div 20000 \<le> 2000000 div unat b"
      using u hi by (intro div_le_mono2) simp_all
    ultimately have "100 \<le> 2000000 div unat b \<and> 2000000 div unat b \<le> 250" by simp
    with False assms show ?thesis
      by (simp add: Config_set_def Let_def unat_of_nat word_less_nat_alt word_le_nat_alt)
  qed
qed

text \<open>The two counts of timer 2 are positive and the half-bit count is below the full-bit
  count, whatever the hardware clock constant is.\<close>

lemma timer_counts_positive:
  assumes "1000 \<le> b" and "b \<le> 20000"
  shows "0 < counts_per_bit (Config_set k b) \<and> 0 < counts_per_half_bit (Config_set k b) \<and>
         counts_per_half_bit (Config_set k b) \<le> counts_per_bit (Config_set k b)"
proof -
  let ?c = "counts_per_bit (Config_set k b)"
  from counts_per_bit_range [OF assms, of k]
  have r: "31 \<le> unat ?c" "unat ?c \<le> 250" by simp_all
  have h: "counts_per_half_bit (Config_set k b) = of_nat (unat ?c div 2 + 2)"
    by (simp add: Config_set_def Let_def)
  have "unat ?c div 2 + 2 < 256" using r by simp
  then have hu: "unat (counts_per_half_bit (Config_set k b)) = unat ?c div 2 + 2"
    unfolding h by (rule unat_of_nat_uint8)
  show ?thesis
    using r hu by (simp add: word_less_nat_alt word_le_nat_alt)
qed

text \<open>The half-bit clock tick count never exceeds the full-bit one.\<close>

lemma clock_half_le_full:
  "clock_ticks_per_half_bit (Config_set k b) \<le> clock_ticks_per_bit (Config_set k b)"
proof -
  let ?c = "clock_ticks_per_bit (Config_set k b)"
  have "clock_ticks_per_half_bit (Config_set k b) = of_nat (unat ?c div 2)"
    by (simp add: Config_set_def Let_def)
  moreover have "unat ?c div 2 < 256"
    using unat_uint8_less [of ?c] by simp
  ultimately have "unat (clock_ticks_per_half_bit (Config_set k b)) = unat ?c div 2"
    by (simp only: unat_of_nat_uint8)
  then show ?thesis by (simp add: word_le_nat_alt)
qed

lemma clock_fields:
  "clock_ticks_per_bit (Config_set k b) =
     of_nat (unat (k * 1000) div unat (baud (Config_set k b)))"
  "clock_ticks_per_half_bit (Config_set k b) =
     of_nat (unat (clock_ticks_per_bit (Config_set k b)) div 2)"
  "clock_ticks_per_until_start_bit (Config_set k b) =
     of_nat (unat (clock_ticks_per_bit (Config_set k b)) * 6)"
  by (simp_all add: Config_set_def Let_def kMaxSpaceBits_def)

lemma unat_times_1000:
  assumes "unat (k :: uint32) \<le> 2560"
  shows "unat (k * 1000) = unat k * 1000"
proof -
  have "unat (k * 1000) = (unat k * unat (1000 :: uint32)) mod 2 ^ 32"
    by (simp only: unat_word_ariths) simp
  with assms show ?thesis by simp
qed

lemma six_times_nonzero: "(c * 6) mod 256 \<noteq> 0" if "c \<le> 127" "2 \<le> c" for c :: nat
proof
  assume "c * 6 mod 256 = 0"
  then have "256 dvd c * 6" by (simp add: dvd_eq_mod_eq_0)
  then have "2 * 128 dvd 2 * (c * 3)" by simp
  then have "128 dvd c * 3" by (simp only: nat_mult_dvd_cancel_disj) simp
  moreover have "coprime (128 :: nat) 3"
  proof -
    have "coprime (2 :: nat) 3" using coprime_add_one_right [of "2 :: nat"] by simp
    then have "coprime ((2 :: nat) ^ 7) 3" by (simp only: coprime_power_left_iff) simp
    moreover have "(2 :: nat) ^ 7 = 128" by simp
    ultimately show ?thesis by (simp only:)
  qed
  ultimately have "128 dvd c" by (simp add: coprime_dvd_mult_left_iff)
  then have "128 \<le> c" using that by (intro dvd_imp_le) simp_all
  with that show False by simp
qed

lemma div_128_bounds:
  "128 * (n div 128) \<le> n \<and> n < 129 * (n div 128)" if "1000 \<le> n div 128" for n :: nat
proof -
  define q where "q = n div 128"
  define r where "r = n mod 128"
  have "n = 128 * q + r" unfolding q_def r_def by (rule mult_div_mod_eq [symmetric])
  moreover have "r < 128" unfolding r_def by simp
  moreover have "1000 \<le> q" using that by (simp add: q_def)
  ultimately have "128 * q \<le> n \<and> n < 129 * q" by linarith
  then show ?thesis by (simp add: q_def)
qed

lemma div_is_128: "n div b = 128" if "128 * b \<le> n" "n < 129 * b" "0 < b" for n b :: nat
proof -
  from that have "128 * b \<le> n" "n < (128 + 1) * b" by simp_all
  then show ?thesis by (intro div_nat_eqI) (simp_all add: mult.commute)
qed

text \<open>With a hardware clock of 40 to 127 ticks per millisecond the three clock tick
  counts are positive for every baud rate in the range.\<close>

lemma clock_counts_positive_slow_clock:
  assumes k: "40 \<le> unat k" "unat k \<le> 127" and b: "1000 \<le> b" "b \<le> 20000"
  shows "0 < clock_ticks_per_bit (Config_set k b) \<and>
         0 < clock_ticks_per_half_bit (Config_set k b) \<and>
         0 < clock_ticks_per_until_start_bit (Config_set k b)"
proof -
  from b have lo: "1000 \<le> unat b" and hi: "unat b \<le> 20000"
    by (simp_all add: word_le_nat_alt)
  from b have bd: "baud (Config_set k b) = b" by (auto simp: Config_set_def Let_def)
  from k have n: "unat (k * 1000) = unat k * 1000" by (intro unat_times_1000) simp
  let ?c = "unat k * 1000 div unat b"
  have "unat k * 1000 div unat b \<le> unat k * 1000 div 1000"
    using lo by (intro div_le_mono2) simp_all
  then have up: "?c \<le> 127" using k by simp
  have "40000 div 20000 \<le> 40000 div unat b" using lo hi by (intro div_le_mono2) simp_all
  moreover have "40000 div unat b \<le> unat k * 1000 div unat b"
    using k by (intro div_le_mono) simp
  ultimately have dn: "2 \<le> ?c" by simp
  have c: "unat (clock_ticks_per_bit (Config_set k b)) = ?c"
    unfolding clock_fields bd n using up by (intro unat_of_nat_uint8) simp
  have h: "unat (clock_ticks_per_half_bit (Config_set k b)) = ?c div 2"
    unfolding clock_fields(2) c using up by (intro unat_of_nat_uint8) simp
  have "unat (clock_ticks_per_until_start_bit (Config_set k b)) = (?c * 6) mod 256"
    unfolding clock_fields(3) c by (simp only: unat_of_nat) simp
  moreover from six_times_nonzero [OF up dn] have "(?c * 6) mod 256 \<noteq> 0" .
  ultimately have u: "unat (clock_ticks_per_until_start_bit (Config_set k b)) \<noteq> 0" by simp
  from c h u up dn show ?thesis
    by (simp add: word_less_nat_alt)
qed

text \<open>With a hardware clock of 128 to 2560 ticks per millisecond some baud rate in the
  range gives 128 clock ticks per bit, and six times 128 is 0 in eight bits.\<close>

lemma until_start_bit_zero_fast_clock:
  assumes k: "128 \<le> unat k" "unat k \<le> 2560"
  shows "\<exists>b. 1000 \<le> b \<and> b \<le> 20000 \<and> clock_ticks_per_until_start_bit (Config_set k b) = 0"
proof -
  let ?N = "unat k * 1000"
  let ?b = "?N div 128"
  from k have n: "unat (k * 1000) = ?N" by (intro unat_times_1000) simp
  have blo: "1000 \<le> ?b" using k by simp
  have bhi: "?b \<le> 20000" using k by simp
  from div_128_bounds [OF blo] have "128 * ?b \<le> ?N" and "?N < 129 * ?b" by simp_all
  moreover have "0 < ?b" using blo by linarith
  ultimately have q: "?N div ?b = 128" by (rule div_is_128)
  have ub: "unat (of_nat ?b :: uint16) = ?b" using bhi by (simp only: unat_of_nat) simp
  let ?w = "of_nat ?b :: uint16"
  have r: "1000 \<le> ?w" "?w \<le> 20000" using blo bhi by (simp_all only: word_le_nat_alt ub) simp_all
  then have bd: "baud (Config_set k ?w) = ?w" by (auto simp: Config_set_def Let_def)
  have "clock_ticks_per_bit (Config_set k ?w) = 128"
    unfolding clock_fields bd n ub q by simp
  then have "clock_ticks_per_until_start_bit (Config_set k ?w) = 0"
    unfolding clock_fields(3) by simp
  with r show ?thesis by blast
qed

text \<open>C6: with the 250 ticks per millisecond of a 16 MHz clock divided by 64, the
  in-range request 1950 gives 128 clock ticks per bit; six times that is 768, and the
  8-bit field \<open>clock_ticks_per_until_start_bit_\<close> keeps 0.\<close>

theorem C6_until_start_bit_zero_at_1950:
  "(1000 :: uint16) \<le> 1950 \<and> (1950 :: uint16) \<le> 20000 \<and>
   clock_ticks_per_bit (Config_set 250 1950) = 128 \<and>
   unat (clock_ticks_per_bit (Config_set 250 1950)) * unat kMaxSpaceBits = 768 \<and>
   clock_ticks_per_until_start_bit (Config_set 250 1950) = 0"
  by (simp add: Config_set_def Let_def kMaxSpaceBits_def)

section \<open>Properties of the identifier parity\<close>

lemma low6_mask: "(0x3f :: uint8) = mask 6"
  by (simp add: mask_eq_exp_minus_1)

lemma shift_low6: "push_bit 2 (b AND 0x3f) = push_bit 2 (b :: uint8)"
  unfolding low6_mask
  by (rule bit_word_eqI) (auto simp: bit_simps)

lemma keep_low6:
  "((x AND 0x80) OR (y AND 0x40) OR (b AND 0x3f)) AND 0x3f = b AND (0x3f :: uint8)"
  by (simp add: word_bw_assocs word_ao_dist)

lemma and_low6_idem: "(b AND 0x3f) AND 0x3f = b AND (0x3f :: uint8)"
  by (simp add: word_bw_assocs)

text \<open>The parity computation keeps the six identifier bits and reads nothing else.\<close>

lemma setIdChecksumBits_low6: "setIdChecksumBits b AND 0x3f = b AND 0x3f"
  unfolding setIdChecksumBits_def Let_def by (rule keep_low6)

lemma setIdChecksumBits_of_low6: "setIdChecksumBits (b AND 0x3f) = setIdChecksumBits b"
  unfolding setIdChecksumBits_def Let_def shift_low6 and_low6_idem ..

lemma setIdChecksumBits_idem:
  "setIdChecksumBits (setIdChecksumBits b) = setIdChecksumBits b"
proof -
  have "setIdChecksumBits (setIdChecksumBits b) =
        setIdChecksumBits (setIdChecksumBits b AND 0x3f)"
    by (simp only: setIdChecksumBits_of_low6)
  also have "\<dots> = setIdChecksumBits (b AND 0x3f)"
    by (simp only: setIdChecksumBits_low6)
  also have "\<dots> = setIdChecksumBits b"
    by (rule setIdChecksumBits_of_low6)
  finally show ?thesis .
qed

text \<open>The two bits are the parity bits of the LIN protected identifier:
  P0 = ID0 xor ID1 xor ID2 xor ID4 in bit 6, P1 = not (ID1 xor ID3 xor ID4 xor ID5)
  in bit 7.\<close>

lemma shifter_doubled: "push_bit m (b::uint8) + push_bit m b = push_bit (Suc m) b"
  by (simp add: push_bit_eq_mult)

lemma bit7_const: "(0x80 :: uint8) = push_bit 7 1"
  by simp

lemma bit6_const: "(0x40 :: uint8) = push_bit 6 1"
  by simp

lemma setIdChecksumBits_p0:
  "bit (setIdChecksumBits b) 6 = (bit b 0 \<noteq> (bit b 1 \<noteq> (bit b 2 \<noteq> bit b 4)))"
  unfolding setIdChecksumBits_def Let_def shifter_doubled bit7_const bit6_const low6_mask
  apply (simp only: bit_and_iff bit_or_iff bit_xor_iff bit_not_iff bit_push_bit_iff
      bit_mask_iff bit_1_iff bit_0 possible_bit_word)
  apply (simp add: numeral_eq_Suc)
  apply (auto simp: bit_0)
  done

lemma setIdChecksumBits_p1:
  "bit (setIdChecksumBits b) 7 =
   (\<not> (bit b 1 \<noteq> (bit b 3 \<noteq> (bit b 4 \<noteq> bit b 5))))"
  unfolding setIdChecksumBits_def Let_def shifter_doubled bit7_const bit6_const low6_mask
  apply (simp only: bit_and_iff bit_or_iff bit_xor_iff bit_not_iff bit_push_bit_iff
      bit_mask_iff bit_1_iff bit_0 possible_bit_word)
  apply (simp add: numeral_eq_Suc)
  apply (auto simp: bit_0)
  done

text \<open>C8: for every byte \<open>b\<close>, and so for each of the 64 identifiers in its six low bits,
  \<open>setIdChecksumBits\<close> keeps the six low bits, maps its own result to itself, and the
  frame that holds only the generated identifier is accepted by \<open>isFrameValid\<close>, whose
  parity check compares the identifier byte with \<open>setIdChecksumBits\<close> of it.\<close>

theorem C8_id_parity_self_consistent:
  "setIdChecksumBits b AND 0x3f = b AND 0x3f \<and>
   setIdChecksumBits (setIdChecksumBits b) = setIdChecksumBits b \<and>
   isFrameValid v2 \<lparr>bytes = setIdChecksumBits b # rest, num_bytes = 1\<rparr>"
  by (simp add: setIdChecksumBits_low6 setIdChecksumBits_idem isFrameValid_def)

section \<open>Properties of the frame validation\<close>

text \<open>The summing loop adds the bytes it is given, modulo \<open>2^16\<close>.\<close>

lemma sum_bytes_unat:
  "p + n \<le> length bs \<Longrightarrow>
   unat (sum_bytes bs p n s) = (unat s + sum_list (map unat (take n (drop p bs)))) mod 65536"
proof (induction n arbitrary: p s)
  case 0
  have "unat s < 65536" using unsigned_less [of s, where ?'a = nat] by simp
  then show ?case by simp
next
  case (Suc n)
  then have p: "p < length bs" and le: "Suc p + n \<le> length bs" by simp_all
  have step: "unat (s + ucast (bs ! p)) = (unat s + unat (bs ! p)) mod 65536"
    by (simp add: unat_word_ariths unsigned_ucast_eq take_bit_eq_mod mod_add_right_eq)
  have tk: "take (Suc n) (drop p bs) = bs ! p # take n (drop (Suc p) bs)"
    using p by (simp add: Cons_nth_drop_Suc [symmetric])
  show ?case
    by (simp only: sum_bytes.simps Suc.IH [OF le] step tk list.map sum_list.Cons)
       (simp add: mod_add_left_eq add.assoc)
qed

lemma sum_list_unat_bound: "sum_list (map unat (xs :: uint8 list)) \<le> 255 * length xs"
proof (induction xs)
  case Nil
  then show ?case by simp
next
  case (Cons x xs)
  have "unat x < 256" by (rule unat_uint8_less)
  with Cons show ?case by simp
qed

lemma spec_fold_less: "spec_fold s < 256"
proof (induction s rule: spec_fold.induct)
  case (1 s)
  show ?case
  proof (cases "s div 256 = 0")
    case True
    then show ?thesis by (subst spec_fold.simps) (simp add: div_eq_0_iff)
  next
    case False
    with 1 show ?thesis by (subst spec_fold.simps) simp
  qed
qed

text \<open>The carry loop of the code computes the folded sum of the specification.\<close>

lemma fold_carry_spec: "unat (fold_carry s) = spec_fold (unat s)"
proof (induction s rule: fold_carry.induct)
  case (1 s)
  show ?case
  proof (cases "(ucast (drop_bit 8 s) :: uint8) = 0")
    case True
    then have "unat s div 256 = 0" by (simp only: high_byte_zero_iff)
    with True show ?thesis
      by (subst fold_carry.simps, subst spec_fold.simps) (simp add: Let_def)
  next
    case False
    then have nz: "unat s div 256 \<noteq> 0" using high_byte_zero_iff [of s] by blast
    have "unat (fold_carry s) = unat (fold_carry ((s AND 0xff) + ucast (ucast (drop_bit 8 s) :: uint8)))"
      using False by (subst fold_carry.simps) (simp add: Let_def)
    also have "\<dots> = spec_fold (unat ((s AND 0xff) + ucast (ucast (drop_bit 8 s) :: uint8)))"
      using 1 False by simp
    also have "\<dots> = spec_fold (unat s mod 256 + unat s div 256)"
      by (simp only: unat_fold_step)
    also have "\<dots> = spec_fold (unat s)"
      using nz by (subst (2) spec_fold.simps) simp
    finally show ?thesis .
  qed
qed

lemma complement_low_byte:
  assumes "unat (w :: uint16) < 256"
  shows "unat (ucast (NOT w) :: uint8) = 255 - unat w"
proof -
  have "(ucast (NOT w) :: uint8) = NOT (ucast w)"
    by (rule bit_word_eqI) (auto simp: bit_simps)
  moreover have "unat (ucast w :: uint8) = unat w"
    using assms by (simp add: unsigned_ucast_eq take_bit_eq_mod)
  moreover have "unat (NOT x) = 255 - unat x" for x :: uint8
  proof -
    have "NOT x = 255 - x" by (simp add: not_eq_complement)
    moreover have "unat x \<le> 255" using unat_uint8_less [of x] by simp
    then have "x \<le> 255" by (simp add: word_le_nat_alt)
    ultimately show ?thesis by (simp add: unat_sub)
  qed
  ultimately show ?thesis by simp
qed


lemma split_byte: "(x AND 0xC0) OR (x AND 0x3f) = (x :: uint8)"
proof -
  have "(x AND 0xC0) OR (x AND 0x3f) = x AND (0xC0 OR 0x3f)"
    by (simp only: bit.conj_disj_distrib)
  also have "(0xC0 OR 0x3f :: uint8) = - 1" by simp
  finally show ?thesis by simp
qed

text \<open>The comparison of \<open>isFrameValid\<close> is the parity condition.\<close>

lemma parity_equiv: "(b = setIdChecksumBits b) \<longleftrightarrow> spec_parity_ok b"
proof
  assume "b = setIdChecksumBits b"
  then have "b AND 0xC0 = setIdChecksumBits b AND 0xC0" by simp
  then show "spec_parity_ok b"
    by (simp only: spec_parity_ok_def setIdChecksumBits_of_low6)
next
  assume "spec_parity_ok b"
  then have hi: "b AND 0xC0 = setIdChecksumBits b AND 0xC0"
    by (simp only: spec_parity_ok_def setIdChecksumBits_of_low6)
  have lo: "b AND 0x3f = setIdChecksumBits b AND 0x3f"
    by (simp only: setIdChecksumBits_low6)
  have "b = (b AND 0xC0) OR (b AND 0x3f)" by (simp only: split_byte)
  also have "\<dots> = (setIdChecksumBits b AND 0xC0) OR (setIdChecksumBits b AND 0x3f)"
    by (simp only: hi lo)
  also have "\<dots> = setIdChecksumBits b" by (simp only: split_byte)
  finally show "b = setIdChecksumBits b" .
qed


lemma frameChecksum_spec:
  assumes wf: "frame_wf f" and lo: "2 \<le> unat (num_bytes f)" and hi: "unat (num_bytes f) \<le> 10"
  shows "unat (frameChecksum v2 f) = spec_checksum v2 (frame_bytes f)"
proof -
  let ?n = "unat (num_bytes f)"
  let ?start = "if v2 then 0 else 1 :: nat"
  let ?nb = "?n - (?start + 1)"
  from wf have len: "length (bytes f) = 10" by (simp add: frame_wf_def kMaxBytes_def)
  have start: "unat (if v2 then 0 else 1 :: uint8) = ?start" by simp
  have nb: "unat (num_bytes f - ((if v2 then 0 else 1 :: uint8) + 1)) = ?nb"
  proof (cases v2)
    case True
    have "(1 :: uint8) \<le> num_bytes f" using lo by (simp add: word_le_nat_alt)
    from unat_sub [OF this] True show ?thesis by simp
  next
    case False
    have "(2 :: uint8) \<le> num_bytes f" using lo by (simp add: word_le_nat_alt)
    from unat_sub [OF this] have "unat (num_bytes f - 2) = ?n - 2" by simp
    with False show ?thesis by simp
  qed
  have fits: "?start + ?nb \<le> length (bytes f)" using len hi by auto
  let ?xs = "take ?nb (drop ?start (bytes f))"
  have "sum_list (map unat ?xs) \<le> 255 * length ?xs" by (rule sum_list_unat_bound)
  also have "\<dots> \<le> 255 * 10" using len by simp
  finally have small: "sum_list (map unat ?xs) < 65536" by simp
  have s: "unat (sum_bytes (bytes f) ?start ?nb 0) = sum_list (map unat ?xs)"
    using sum_bytes_unat [OF fits, of 0] small by simp
  have xs: "butlast (if v2 then frame_bytes f else tl (frame_bytes f)) = ?xs"
    using len hi lo
    by (simp add: frame_bytes_def butlast_take tl_take drop_Suc)
  have "unat (frameChecksum v2 f) =
        255 - unat (fold_carry (sum_bytes (bytes f) ?start ?nb 0))"
    unfolding frameChecksum_def Let_def start nb
    by (rule complement_low_byte) (simp only: fold_carry_spec spec_fold_less)
  also have "\<dots> = 255 - spec_fold (sum_list (map unat ?xs))"
    by (simp only: fold_carry_spec s)
  finally show ?thesis by (simp only: spec_checksum_def xs)
qed

text \<open>C5: for a frame whose array has the \<open>kMaxBytes\<close> entries of its declaration,
  \<open>isFrameValid\<close> answers true exactly when the byte count is 1 or from 3 to 10, the
  two most significant bits of the first byte are the parity bits of its six low bits,
  and, for more than one byte, the last byte is the complement of the folded 8-bit sum of
  the bytes before it, counted from the identifier (enhanced) or after it (classic).\<close>

theorem C5_isFrameValid_iff_well_formed: "frame_wf f \<Longrightarrow> isFrameValid v2 f = spec_well_formed v2 f"
proof -
  assume wf: "frame_wf f"
  let ?n = "unat (num_bytes f)"
  from wf have len: "length (bytes f) = 10" by (simp add: frame_wf_def kMaxBytes_def)
  have eq1: "num_bytes f = 1 \<longleftrightarrow> ?n = 1"
    by (simp add: word_unat_eq_iff)
  have size: "(num_bytes f \<noteq> 1 \<and> (num_bytes f < 3 \<or> num_bytes f > 10)) \<longleftrightarrow>
              \<not> (?n = 1 \<or> (3 \<le> ?n \<and> ?n \<le> 10))"
    unfolding eq1 by (auto simp: word_less_nat_alt)
  have gt1: "num_bytes f > 1 \<longleftrightarrow> ?n > 1" by (simp add: word_less_nat_alt)
  show ?thesis
  proof (cases "?n = 1 \<or> (3 \<le> ?n \<and> ?n \<le> 10)")
    case False
    then show ?thesis
      using size by (auto simp: isFrameValid_def spec_well_formed_def Let_def)
  next
    case True
    then have n: "1 \<le> ?n" "?n \<le> 10" by auto
    have "bytes f \<noteq> []" using len by auto
    then have "hd (bytes f) = bytes f ! 0" by (rule hd_conv_nth)
    then have hd: "hd (frame_bytes f) = bytes f ! 0"
      using n by (simp add: frame_bytes_def)
    have tlen: "length (take ?n (bytes f)) = ?n" using n len by simp
    then have "take ?n (bytes f) \<noteq> []" using n by auto
    then have "last (take ?n (bytes f)) = take ?n (bytes f) ! (?n - 1)"
      using tlen by (simp add: last_conv_nth)
    also have "\<dots> = bytes f ! (?n - 1)" using n by simp
    finally have last: "last (frame_bytes f) = bytes f ! (?n - 1)"
      by (simp add: frame_bytes_def)
    show ?thesis
    proof (cases "?n > 1")
      case False
      with True size gt1 show ?thesis
        by (simp add: isFrameValid_def spec_well_formed_def Let_def hd parity_equiv)
    next
      case big: True
      with True have "2 \<le> ?n" by simp
      note cs = frameChecksum_spec [OF wf this n(2), of v2]
      have iv: "isFrameValid v2 f \<longleftrightarrow>
                bytes f ! 0 = setIdChecksumBits (bytes f ! 0) \<and>
                bytes f ! (?n - 1) = frameChecksum v2 f"
        using True size gt1 big by (auto simp: isFrameValid_def Let_def)
      have sw: "spec_well_formed v2 f \<longleftrightarrow>
                spec_parity_ok (bytes f ! 0) \<and>
                unat (bytes f ! (?n - 1)) = spec_checksum v2 (frame_bytes f)"
        using True big by (auto simp: spec_well_formed_def Let_def hd last)
      have "bytes f ! (?n - 1) = frameChecksum v2 f \<longleftrightarrow>
            unat (bytes f ! (?n - 1)) = spec_checksum v2 (frame_bytes f)"
        using cs by (simp only: word_unat_eq_iff)
      with iv sw parity_equiv [of "bytes f ! 0"] show ?thesis by blast
    qed
  qed
qed

theorem C5_isFrameValid_iff_well_formed_witness:
  "frame_wf \<lparr>bytes = [0x92, 0xAA, 0x55, 0, 0, 0, 0, 0, 0, 0], num_bytes = 3\<rparr> \<and>
   isFrameValid False \<lparr>bytes = [0x92, 0xAA, 0x55, 0, 0, 0, 0, 0, 0, 0], num_bytes = 3\<rparr> \<and>
   spec_well_formed False
     \<lparr>bytes = [0x92, 0xAA, 0x55, 0, 0, 0, 0, 0, 0, 0], num_bytes = 3\<rparr> \<and>
   \<not> spec_well_formed True
     \<lparr>bytes = [0x92, 0xAA, 0x55, 0, 0, 0, 0, 0, 0, 0], num_bytes = 3\<rparr>"
proof -
  let ?f = "\<lparr>bytes = [0x92, 0xAA, 0x55, 0, 0, 0, 0, 0, 0, 0], num_bytes = 3 :: uint8\<rparr>"
  have wf: "frame_wf ?f" by (simp add: frame_wf_def kMaxBytes_def)
  have classic: "isFrameValid False ?f" by code_simp
  have enhanced: "\<not> isFrameValid True ?f" by code_simp
  from wf classic enhanced
    C5_isFrameValid_iff_well_formed [OF wf, of False]
    C5_isFrameValid_iff_well_formed [OF wf, of True]
  show ?thesis by blast
qed

section \<open>Properties of the ring buffer\<close>

lemmas error_defs = FRAME_TOO_SHORT_def FRAME_TOO_LONG_def START_BIT_def STOP_BIT_def
  SYNC_BYTE_def BUFFER_OVERRUN_def OTHER_def

lemmas handler_defs = StateReadData_handle_isr_def StateReadData_stop_bit_def
  StateReadData_frame_end_def StateDetectBreak_enter_def setErrorFlags_def
  incrementHeadFrameBuffer_def incrementTailFrameBuffer_def

lemmas setup_defs = decoder_setup_def setupBuffers_def static_init_def
  StateDetectBreak_enter_def

text \<open>The wait for the end of a handler run returns exactly when one of the later reads of
  the marker differs from the first.\<close>

lemma waitForIsrEnd_loop_returns:
  "waitForIsrEnd_loop v ms = Some () \<longleftrightarrow> (\<exists>m\<in>set ms. m \<noteq> v)"
  by (induction ms) auto

text \<open>C9: when the tail index equals the head index, \<open>readNextFrame\<close> returns false
  with the caller's buffer and the decoder as they were; otherwise it returns true with
  the slot at the tail index copied to the buffer. It returns once the interrupt marker
  has changed.\<close>

theorem C9_readNextFrame_empty_leaves_buffer:
  assumes "\<exists>m\<in>set ms. m \<noteq> v"
  shows "(tail_frame_buffer st = head_frame_buffer st \<longrightarrow>
            readNextFrame (v # ms) buffer st = Some (False, buffer, st)) \<and>
         (tail_frame_buffer st \<noteq> head_frame_buffer st \<longrightarrow>
            readNextFrame (v # ms) buffer st =
              Some (True, rx_frame_buffers st ! unat (tail_frame_buffer st),
                    incrementTailFrameBuffer st))"
proof -
  from assms have "waitForIsrEnd (v # ms) = Some ()"
    by (simp add: waitForIsrEnd_def waitForIsrEnd_loop_returns)
  then show ?thesis by (simp add: readNextFrame_def)
qed

theorem C9_readNextFrame_empty_leaves_buffer_witness:
  "readNextFrame [0, 0, 1] \<lparr>bytes = [1, 2, 3], num_bytes = 3\<rparr>
     (decoder_setup 250 19200 static_init) =
   Some (False, \<lparr>bytes = [1, 2, 3], num_bytes = 3\<rparr>, decoder_setup 250 19200 static_init) \<and>
   (\<exists>f st. readNextFrame [0, 0, 1] \<lparr>bytes = [1, 2, 3], num_bytes = 3\<rparr>
      ((decoder_setup 250 19200 static_init)\<lparr>head_frame_buffer := 1\<rparr>) = Some (True, f, st))"
proof -
  have m: "\<exists>m\<in>set [0, 1 :: uint8]. m \<noteq> 0" by simp
  have e: "tail_frame_buffer (decoder_setup 250 19200 static_init) =
           head_frame_buffer (decoder_setup 250 19200 static_init)"
    by (simp add: setup_defs)
  have n: "tail_frame_buffer ((decoder_setup 250 19200 static_init)\<lparr>head_frame_buffer := 1\<rparr>) \<noteq>
           head_frame_buffer ((decoder_setup 250 19200 static_init)\<lparr>head_frame_buffer := 1\<rparr>)"
    by (simp add: setup_defs)
  from e n
    C9_readNextFrame_empty_leaves_buffer [OF m,
      of "decoder_setup 250 19200 static_init" "\<lparr>bytes = [1, 2, 3], num_bytes = 3\<rparr>"]
    C9_readNextFrame_empty_leaves_buffer [OF m,
      of "(decoder_setup 250 19200 static_init)\<lparr>head_frame_buffer := 1\<rparr>"
         "\<lparr>bytes = [1, 2, 3], num_bytes = 3\<rparr>"]
  show ?thesis by blast
qed

section \<open>Properties of the wait for the response\<close>

text \<open>A wait that ends with 0 has seen no channel fall in the readings it used, and
  its last reading is at least the budget after its first.\<close>

lemma loop_zero:
  "waitForResponseStartBit_loop mx base (rx1_isHigh prev) (rx2_isHigh prev) env = Some (0, env') \<Longrightarrow>
   \<exists>used. env = used @ env' \<and> used \<noteq> [] \<and>
      \<not> falls rx1_isHigh (prev # used) \<and> \<not> falls rx2_isHigh (prev # used) \<and>
      ticksForIsr (last used) - base \<ge> mx \<and>
      (\<forall>p\<in>set (butlast used). ticksForIsr p - base < mx)"
proof (induction env arbitrary: prev)
  case Nil
  then show ?case by simp
next
  case (Cons p env)
  from Cons.prems have n1: "\<not> (rx1_isHigh prev \<and> \<not> rx1_isHigh p)"
    and n2: "\<not> (rx2_isHigh prev \<and> \<not> rx2_isHigh p)"
    by (auto simp: Let_def split: if_splits)
  show ?case
  proof (cases "ticksForIsr p - base \<ge> mx")
    case True
    with Cons.prems n1 n2 have "env' = env" by (auto simp: Let_def split: if_splits)
    with True n1 n2 show ?thesis by (intro exI [of _ "[p]"]) auto
  next
    case False
    with Cons.prems n1 n2
    have "waitForResponseStartBit_loop mx base (rx1_isHigh p) (rx2_isHigh p) env = Some (0, env')"
      by (auto simp: Let_def split: if_splits)
    from Cons.IH [OF this] obtain used where u: "env = used @ env'" "used \<noteq> []"
      "\<not> falls rx1_isHigh (p # used)" "\<not> falls rx2_isHigh (p # used)"
      "ticksForIsr (last used) - base \<ge> mx"
      "\<forall>q\<in>set (butlast used). ticksForIsr q - base < mx" by blast
    with False n1 n2 show ?thesis
      by (intro exI [of _ "p # used"]) (auto simp: not_le)
  qed
qed

lemma wait_zero:
  assumes "waitForResponseStartBit mx env = Some (0, env')"
  shows "\<exists>used. env = used @ env' \<and> \<not> falls rx1_isHigh used \<and> \<not> falls rx2_isHigh used \<and>
           ticksForIsr (last used) - ticksForIsr (hd used) \<ge> mx"
proof (cases env)
  case Nil
  with assms show ?thesis by (simp add: waitForResponseStartBit_def)
next
  case (Cons p0 env0)
  with assms have "waitForResponseStartBit_loop mx (ticksForIsr p0) (rx1_isHigh p0) (rx2_isHigh p0) env0 = Some (0, env')"
    by (simp add: waitForResponseStartBit_def)
  from loop_zero [OF this] obtain used where u: "env0 = used @ env'" "used \<noteq> []"
      "\<not> falls rx1_isHigh (p0 # used)" "\<not> falls rx2_isHigh (p0 # used)"
      "ticksForIsr (last used) - ticksForIsr p0 \<ge> mx" by blast
  with Cons show ?thesis by (intro exI [of _ "p0 # used"]) auto
qed

lemma loop_result_range:
  "waitForResponseStartBit_loop mx base s1 s2 env = Some (r, env') \<Longrightarrow> r = 0 \<or> r = 1 \<or> r = 2"
  by (induction env arbitrary: s1 s2) (auto simp: Let_def split: if_splits)

text \<open>At the stop bit of the identifier byte the channel that the wait names becomes the
  read channel.\<close>

lemma stop_bit_master:
  assumes "StateReadData_stop_bit True env st = Some (st', env')"
    and "bytes_read st = 1"
    and "waitForResponseStartBit (ucast (clock_ticks_per_until_start_bit (config st))) env = Some (1, env'')"
  shows "rx_from_lin1 st' \<and> env' = env''"
  using assms
  by (auto simp: StateReadData_stop_bit_def Let_def StateDetectBreak_enter_def setErrorFlags_def
      split: if_splits)

text \<open>The same for the whole handler at the stop bit of the identifier byte.\<close>

lemma handle_isr_master:
  assumes "bits_read_in_byte st > 8" and "bytes_read st = 1"
    and "if rx_from_lin1 st then rx1_isHigh q else rx2_isHigh q"
    and "waitForResponseStartBit (ucast (clock_ticks_per_until_start_bit (config st))) env = Some (1, env')"
  shows "\<exists>st'. StateReadData_handle_isr (q # env) st = Some (st', env') \<and> rx_from_lin1 st'"
proof -
  from assms(1) have a: "bits_read_in_byte st \<noteq> 0" "\<not> bits_read_in_byte st \<le> 8" by auto
  show ?thesis using a assms(2-4)
    by (auto simp: handler_defs Let_def split: if_splits)
qed

text \<open>C10: in every iteration of \<open>waitForResponseStartBit\<close> channel 1 is tested before
  channel 2, so a reading in which both channels have fallen gives 1; a result of 0 means
  that no channel fell in the readings used and that the clock has advanced by the budget;
  and with the result 1 at the stop bit of the identifier byte the handler makes the
  master line the read channel.\<close>

theorem C10_response_channel1_first:
  "(state1 \<and> state2 \<and> \<not> rx1_isHigh p \<and> \<not> rx2_isHigh p \<longrightarrow>
      waitForResponseStartBit_loop mx base state1 state2 (p # env) = Some (1, env)) \<and>
   (waitForResponseStartBit mx env1 = Some (0, env1') \<longrightarrow>
      (\<exists>used. env1 = used @ env1' \<and> \<not> falls rx1_isHigh used \<and> \<not> falls rx2_isHigh used \<and>
         mx \<le> ticksForIsr (last used) - ticksForIsr (hd used))) \<and>
   (bits_read_in_byte st > 8 \<and> bytes_read st = 1 \<and>
    (if rx_from_lin1 st then rx1_isHigh q else rx2_isHigh q) \<and>
    waitForResponseStartBit (ucast (clock_ticks_per_until_start_bit (config st))) env2 =
      Some (1, env2') \<longrightarrow>
      (\<exists>st'. StateReadData_handle_isr (q # env2) st = Some (st', env2') \<and> rx_from_lin1 st'))"
  using wait_zero [of mx env1 env1'] handle_isr_master [of st q env2 env2']
  by (simp add: Let_def)

theorem C10_response_channel1_first_witness:
  "waitForResponseStartBit_loop 78 100 True True [rd False False 101] = Some (1, []) \<and>
   (\<exists>used. [rd True True 100, rd True True 178] = used @ [] \<and>
      \<not> falls rx1_isHigh used \<and> \<not> falls rx2_isHigh used) \<and>
   (\<exists>st'. StateReadData_handle_isr [rd True True 0, rd True True 100, rd False False 101]
      ((decoder_setup 250 19200 static_init)
         \<lparr>state := READ_DATA, rx_from_lin1 := True, bytes_read := 1,
          bits_read_in_byte := 9, byte_buffer := 0x92\<rparr>) = Some (st', []) \<and>
      rx_from_lin1 st')"
proof -
  let ?st = "(decoder_setup 250 19200 static_init)
         \<lparr>state := READ_DATA, rx_from_lin1 := True, bytes_read := 1,
          bits_read_in_byte := 9, byte_buffer := 0x92\<rparr>"
  have a: "True \<and> True \<and> \<not> rx1_isHigh (rd False False 101) \<and> \<not> rx2_isHigh (rd False False 101)"
    by (simp add: rd_def)
  have b: "waitForResponseStartBit 78 [rd True True 100, rd True True 178] = Some (0, [])"
    by (simp add: waitForResponseStartBit_def rd_def Let_def)
  have cfg: "clock_ticks_per_until_start_bit (config ?st) = 78"
    by (simp add: setup_defs Config_set_def Let_def kMaxSpaceBits_def)
  have c: "bits_read_in_byte ?st > 8 \<and> bytes_read ?st = 1 \<and>
           (if rx_from_lin1 ?st then rx1_isHigh (rd True True 0) else rx2_isHigh (rd True True 0)) \<and>
           waitForResponseStartBit (ucast (clock_ticks_per_until_start_bit (config ?st)))
             [rd True True 100, rd False False 101] = Some (1, [])"
    unfolding cfg by (simp add: waitForResponseStartBit_def rd_def Let_def)
  from a b c
    C10_response_channel1_first [where ?state1.0 = True and ?state2.0 = True and p = "rd False False 101" and mx = 78
           and base = 100 and env = "[]" and ?env1.0 = "[rd True True 100, rd True True 178]"
           and env1' = "[]" and st = ?st and q = "rd True True 0"
           and ?env2.0 = "[rd True True 100, rd False False 101]" and env2' = "[]"]
  show ?thesis by blast
qed

section \<open>Properties of the handler of Read-Data\<close>

text \<open>A stop bit sampled low raises the stop-bit error for every byte, the first one
  included: \<open>bytes_read_\<close> is incremented before it is compared with 0.\<close>
lemma stop_bit_low:
  assumes "bits_read_in_byte st > 8"
    and "\<not> (if rx_from_lin1 st then rx1_isHigh p else rx2_isHigh p)"
    and "bytes_read st \<noteq> 255"
  shows "\<exists>st'. StateReadData_handle_isr (p # env) st = Some (st', env) \<and>
           error_flags st' = error_flags st OR STOP_BIT \<and> state st' = DETECT_BREAK"
proof -
  from assms(1) have a: "bits_read_in_byte st \<noteq> 0" "\<not> bits_read_in_byte st \<le> 8" by auto
  have "bytes_read st = - 1" if "bytes_read st + 1 = 0"
    using that by (simp add: eq_neg_iff_add_eq_0)
  with assms(3) have b: "bytes_read st + 1 \<noteq> 0" by auto
  show ?thesis using a b assms(2)
    by (simp add: handler_defs Let_def)
qed

text \<open>C2: the decoder in Read-Data at the stop bit of the first byte of a frame, with the
  pin sampled low. The handler raises the stop-bit error, not the sync-byte error, and
  goes to Detect-Break.\<close>

theorem C2_stop_bit_low_in_sync_byte:
  "let st = (decoder_setup 250 19200 static_init)
              \<lparr>state := READ_DATA, rx_from_lin1 := True, bytes_read := 0,
               bits_read_in_byte := 9, byte_buffer := 0x55\<rparr>
   in \<exists>st'. TIMER2_COMPA_vect [rd False True 0] st = Some (st', []) \<and>
         error_flags st' = STOP_BIT \<and> error_flags st' \<noteq> SYNC_BYTE \<and> state st' = DETECT_BREAK"
  by (simp add: Let_def TIMER2_COMPA_vect_def handler_defs decoder_setup_def setupBuffers_def
      static_init_def rd_def DETECT_BREAK_def READ_DATA_def error_defs)

lemma succ_nonzero: "bytes_read st \<noteq> 255 \<Longrightarrow> bytes_read st + 1 \<noteq> 0"
proof -
  have "bytes_read st = - 1" if "bytes_read st + 1 = 0"
    using that by (simp add: eq_neg_iff_add_eq_0)
  then show "bytes_read st \<noteq> 255 \<Longrightarrow> bytes_read st + 1 \<noteq> 0" by auto
qed

lemma not_8_le_1: "\<not> (8 :: uint8) \<le> 1"
  by (simp add: word_le_nat_alt)

lemma or_keeps_bit0: 
  "(x OR 0x02) AND 0x01 = x AND (0x01::uint8)" 
  "(x OR 0x04) AND 0x01 = x AND (0x01::uint8)" 
  "(x OR 0x08) AND 0x01 = x AND (0x01::uint8)" 
  "(x OR 0x10) AND 0x01 = x AND (0x01::uint8)" 
  "(x OR 0x20) AND 0x01 = x AND (0x01::uint8)" 
  by (simp_all add: word_ao_dist)

text \<open>The end of a frame with at least one byte read, the sync byte included, never
  raises the too-short error and always moves the head index; and the handler of Read-Data
  counts a byte before it can reach the end of a frame.\<close>

lemma frame_end_not_too_short:
  "bytes_read st \<noteq> 0 \<Longrightarrow>
   error_flags (StateReadData_frame_end st) AND FRAME_TOO_SHORT = error_flags st AND FRAME_TOO_SHORT
   \<and> head_frame_buffer (StateReadData_frame_end st) \<noteq> head_frame_buffer st"
  apply (auto simp: handler_defs Let_def kMinBytes_def error_defs or_keeps_bit0 not_8_le_1 kMaxFrameBuffers_def)
  done

lemma too_short_never_raised:
  assumes "StateReadData_handle_isr env st = Some (st', env')" and "bytes_read st \<noteq> 255"
  shows "error_flags st' AND FRAME_TOO_SHORT = error_flags st AND FRAME_TOO_SHORT"
  using assms succ_nonzero [of st]
  by (auto simp: handler_defs Let_def kMinBytes_def error_defs or_keeps_bit0 not_8_le_1
           split: list.splits if_splits option.splits)

text \<open>C3: the decoder in Read-Data at the stop bit of the sync byte \<open>0x55\<close>, the stop
  bit sampled high, and then no start bit for the 78 clock ticks of the timeout at 19200
  baud. With \<open>bytes_read_ = 1\<close> and \<open>kMinBytes = 1\<close> the test
  \<open>bytes_read_ < kMinBytes\<close> is false: no error is raised, the head index moves
  from 0 to 1, and \<open>readNextFrame\<close> then delivers a frame of no bytes.\<close>

theorem C3_sync_then_silence_queues_empty_frame:
  "let st = (decoder_setup 250 19200 static_init)
              \<lparr>state := READ_DATA, rx_from_lin1 := True, bytes_read := 0,
               bits_read_in_byte := 9, byte_buffer := 0x55\<rparr>
   in \<exists>st'. TIMER2_COMPA_vect [rd True True 0, rd True True 100, rd True True 178] st = Some (st', []) \<and>
         error_flags st' = 0 \<and> head_frame_buffer st' = 1 \<and> head_frame_buffer st = 0 \<and>
         tail_frame_buffer st' = 0 \<and> state st' = DETECT_BREAK \<and>
         (\<exists>f st''. readNextFrame [0, 1] \<lparr>bytes = [], num_bytes = 7\<rparr> st' = Some (True, f, st'') \<and> num_bytes f = 0)"
  by (simp add: Let_def TIMER2_COMPA_vect_def handler_defs decoder_setup_def setupBuffers_def static_init_def
      rd_def DETECT_BREAK_def READ_DATA_def error_defs Config_set_def kMaxSpaceBits_def kMinBytes_def kMaxBytes_def kMaxFrameBuffers_def not_8_le_1
      waitForRxLow_def isRxHigh_def readNextFrame_def waitForIsrEnd_def)

text \<open>Every busy wait returns once the clock has advanced by its budget: none of them
  waits for ever while the clock runs.\<close>

lemma waitForRxLow_loop_returns:
  "\<exists>p\<in>set env. mx \<le> ticksForIsr p - base \<Longrightarrow>
   \<exists>r env'. waitForRxLow_loop mx ch base env = Some (r, env')"
  by (induction env) (auto simp: Let_def)

lemma waitForRxHigh_loop_returns:
  "\<exists>p\<in>set env. mx \<le> ticksForIsr p - base \<Longrightarrow>
   \<exists>r env'. waitForRxHigh_loop mx ch base env = Some (r, env')"
  by (induction env) (auto simp: Let_def)

lemma wait_loop_returns:
  "\<exists>p\<in>set env. mx \<le> ticksForIsr p - base \<Longrightarrow> \<exists>env'. wait_loop mx base env = Some env'"
  by (induction env) (auto simp: Let_def)

lemma waitForResponseStartBit_loop_returns:
  "\<exists>p\<in>set env. mx \<le> ticksForIsr p - base \<Longrightarrow>
   \<exists>r env'. waitForResponseStartBit_loop mx base s1 s2 env = Some (r, env')"
proof (induction env arbitrary: s1 s2)
  case Nil
  then show ?case by simp
next
  case (Cons a env)
  show ?case
  proof (cases "(s1 \<and> \<not> rx1_isHigh a) \<or> (s2 \<and> \<not> rx2_isHigh a) \<or>
                mx \<le> ticksForIsr a - base")
    case True
    then show ?thesis by (auto simp: Let_def)
  next
    case False
    with Cons.prems have "\<exists>p\<in>set env. mx \<le> ticksForIsr p - base" by auto
    from Cons.IH [OF this, of "rx1_isHigh a" "rx2_isHigh a"] False
    show ?thesis by (auto simp: Let_def)
  qed
qed

lemma waits_return:
  assumes "clock_reaches mx env"
  shows "\<exists>r env'. waitForRxLow mx ch env = Some (r, env')"
    and "\<exists>r env'. waitForRxHigh mx ch env = Some (r, env')"
    and "\<exists>env'. wait mx env = Some env'"
    and "\<exists>r env'. waitForResponseStartBit mx env = Some (r, env')"
  using assms waitForRxLow_loop_returns waitForRxHigh_loop_returns wait_loop_returns
    waitForResponseStartBit_loop_returns
  by (auto simp: clock_reaches_def waitForRxLow_def waitForRxHigh_def wait_def
      waitForResponseStartBit_def split: list.splits)

lemma succ_nonzero': "(b::uint8) \<noteq> 255 \<Longrightarrow> b + 1 \<noteq> 0"
proof -
  have "b = - 1" if "b + 1 = 0"
    using that by (simp add: eq_neg_iff_add_eq_0)
  then show "b \<noteq> 255 \<Longrightarrow> b + 1 \<noteq> 0" by auto
qed

lemma or_keeps_sync:
  "(x OR 0x02) AND 0x10 = x AND (0x10::uint8)"
  "(x OR 0x20) AND 0x10 = x AND (0x10::uint8)"
  by (simp_all add: word_ao_dist)

text \<open>The three cases of a stop bit sampled high: the first byte differs from the sync
  value, the first byte is the sync value, and a later byte.\<close>

lemma stop_bit_sync_mismatch:
  assumes "bytes_read st = 0" and "byte_buffer st \<noteq> 0x55"
  shows "StateReadData_stop_bit True env st =
         Some (StateDetectBreak_enter (setErrorFlags SYNC_BYTE
                 (st\<lparr>bytes_read := 1, bits_read_in_byte := 0\<rparr>)), env)"
  using assms by (simp add: StateReadData_stop_bit_def Let_def)

lemma stop_bit_sync_ok:
  assumes "bytes_read st = 0" and "byte_buffer st = 0x55"
    and "StateReadData_stop_bit True env st = Some (st', env')"
  shows "rx_frame_buffers st' = rx_frame_buffers st \<and>
         error_flags st' AND SYNC_BYTE = error_flags st AND SYNC_BYTE \<and>
         (waitForRxLow (ucast (clock_ticks_per_until_start_bit (config st))) (rx_from_lin1 st) env
            = Some (True, env') \<and>
          num_bytes (rx_frame_buffers st ! unat (head_frame_buffer st)) < kMaxBytes \<longrightarrow>
            st' = st\<lparr>bytes_read := 1, bits_read_in_byte := 0\<rparr>)"
  using assms
  by (auto simp: StateReadData_stop_bit_def StateReadData_frame_end_def StateDetectBreak_enter_def
      setErrorFlags_def incrementHeadFrameBuffer_def incrementTailFrameBuffer_def Let_def
      error_defs or_keeps_sync kMinBytes_def
      split: if_splits option.splits)

lemma stop_bit_appends:
  assumes "bytes_read st \<noteq> 0" and "bytes_read st \<noteq> 255"
    and "StateReadData_stop_bit True env st = Some (st', env')"
  shows "rx_frame_buffers st' =
         (rx_frame_buffers st)[unat (head_frame_buffer st) :=
            append_byte (byte_buffer st) (rx_frame_buffers st ! unat (head_frame_buffer st))]"
proof -
  from assms(1) have "bytes_read st + 1 \<noteq> 1" by simp
  with assms(3) succ_nonzero' [OF assms(2)] show ?thesis
    by (auto simp: StateReadData_stop_bit_def StateReadData_frame_end_def StateDetectBreak_enter_def
      setErrorFlags_def incrementHeadFrameBuffer_def incrementTailFrameBuffer_def Let_def
      split: if_splits option.splits)
qed

lemma stop_bit_returns:
  assumes "clock_reaches (ucast (clock_ticks_per_until_start_bit (config st))) env"
  shows "\<exists>st' env'. StateReadData_stop_bit r env st = Some (st', env')"
proof -
  let ?mx = "ucast (clock_ticks_per_until_start_bit (config st)) :: uint16"
  from waits_return(1) [OF assms] obtain a env1
    where a: "waitForRxLow ?mx (rx_from_lin1 st) env = Some (a, env1)" by blast
  from waits_return(4) [OF assms] obtain b env2
    where b: "waitForResponseStartBit ?mx env = Some (b, env2)" by blast
  show ?thesis using a b
    by (auto simp: StateReadData_stop_bit_def Let_def)
qed

lemma handle_isr_at_stop_bit:
  assumes "bits_read_in_byte st > 8"
  shows "StateReadData_handle_isr (p # env) st =
         StateReadData_stop_bit (if rx_from_lin1 st then rx1_isHigh p else rx2_isHigh p) env
           (if rx_from_lin1 st
            then st\<lparr>tx2_pin := (if rx_from_lin1 st then rx1_isHigh p else rx2_isHigh p)\<rparr>
            else st\<lparr>tx1_pin := (if rx_from_lin1 st then rx1_isHigh p else rx2_isHigh p)\<rparr>)"
proof -
  from assms have "bits_read_in_byte st \<noteq> 0" "\<not> bits_read_in_byte st \<le> 8" by auto
  then show ?thesis by (simp add: StateReadData_handle_isr_def Let_def)
qed

text \<open>C4: at a stop bit sampled high, with the clock advancing so that the wait for the
  next start bit returns, the handler returns, and:
  the first byte of a frame (\<open>bytes_read_ = 0\<close>) that is not \<open>0x55\<close> raises the
  sync-byte error and leads to Detect-Break with the frame buffers and both indices
  unchanged; the first byte equal to \<open>0x55\<close> leaves the frame buffers unchanged, raises
  no sync-byte error and, when the next start bit arrives, the decoder stays in its state
  with one byte counted; every later byte is appended to the slot at the head index.\<close>

theorem C4_sync_byte_checked_not_stored:
  assumes stop: "bits_read_in_byte st > 8"
    and high: "if rx_from_lin1 st then rx1_isHigh p else rx2_isHigh p"
    and clock: "clock_reaches (ucast (clock_ticks_per_until_start_bit (config st))) env"
  shows "\<exists>st' env'. StateReadData_handle_isr (p # env) st = Some (st', env') \<and>
     (bytes_read st = 0 \<and> byte_buffer st \<noteq> 0x55 \<longrightarrow>
        error_flags st' = error_flags st OR SYNC_BYTE \<and> state st' = DETECT_BREAK \<and>
        rx_frame_buffers st' = rx_frame_buffers st \<and>
        head_frame_buffer st' = head_frame_buffer st \<and>
        tail_frame_buffer st' = tail_frame_buffer st) \<and>
     (bytes_read st = 0 \<and> byte_buffer st = 0x55 \<longrightarrow>
        rx_frame_buffers st' = rx_frame_buffers st \<and>
        error_flags st' AND SYNC_BYTE = error_flags st AND SYNC_BYTE \<and>
        (waitForRxLow (ucast (clock_ticks_per_until_start_bit (config st))) (rx_from_lin1 st) env
           = Some (True, env') \<and>
         num_bytes (rx_frame_buffers st ! unat (head_frame_buffer st)) < kMaxBytes \<longrightarrow>
           state st' = state st \<and> bytes_read st' = 1 \<and> bits_read_in_byte st' = 0 \<and>
           error_flags st' = error_flags st)) \<and>
     (bytes_read st \<noteq> 0 \<and> bytes_read st \<noteq> 255 \<longrightarrow>
        rx_frame_buffers st' =
          (rx_frame_buffers st)[unat (head_frame_buffer st) :=
             append_byte (byte_buffer st) (rx_frame_buffers st ! unat (head_frame_buffer st))])"
proof -
  define st1 where "st1 = (if rx_from_lin1 st then st\<lparr>tx2_pin := True\<rparr> else st\<lparr>tx1_pin := True\<rparr>)"
  have same: "config st1 = config st" "bytes_read st1 = bytes_read st"
    "byte_buffer st1 = byte_buffer st" "rx_frame_buffers st1 = rx_frame_buffers st"
    "head_frame_buffer st1 = head_frame_buffer st" "tail_frame_buffer st1 = tail_frame_buffer st"
    "error_flags st1 = error_flags st" "rx_from_lin1 st1 = rx_from_lin1 st" "state st1 = state st"
    by (simp_all add: st1_def)
  have h: "StateReadData_handle_isr (p # env) st = StateReadData_stop_bit True env st1"
    using handle_isr_at_stop_bit [OF stop, of p env] high by (simp add: st1_def)
  from clock have "clock_reaches (ucast (clock_ticks_per_until_start_bit (config st1))) env"
    by (simp only: same)
  from stop_bit_returns [OF this, of True] obtain st' env'
    where r: "StateReadData_stop_bit True env st1 = Some (st', env')" by blast
  have a: "error_flags st' = error_flags st OR SYNC_BYTE \<and> state st' = DETECT_BREAK \<and>
        rx_frame_buffers st' = rx_frame_buffers st \<and>
        head_frame_buffer st' = head_frame_buffer st \<and>
        tail_frame_buffer st' = tail_frame_buffer st"
    if "bytes_read st = 0" "byte_buffer st \<noteq> 0x55"
    using stop_bit_sync_mismatch [of st1 env] that r same
    by (auto simp: StateDetectBreak_enter_def setErrorFlags_def)
  have b: "rx_frame_buffers st' = rx_frame_buffers st \<and>
        error_flags st' AND SYNC_BYTE = error_flags st AND SYNC_BYTE \<and>
        (waitForRxLow (ucast (clock_ticks_per_until_start_bit (config st))) (rx_from_lin1 st) env
           = Some (True, env') \<and>
         num_bytes (rx_frame_buffers st ! unat (head_frame_buffer st)) < kMaxBytes \<longrightarrow>
           state st' = state st \<and> bytes_read st' = 1 \<and> bits_read_in_byte st' = 0 \<and>
           error_flags st' = error_flags st)"
    if "bytes_read st = 0" "byte_buffer st = 0x55"
    using stop_bit_sync_ok [of st1 env st' env'] that r same by auto
  have c: "rx_frame_buffers st' =
          (rx_frame_buffers st)[unat (head_frame_buffer st) :=
             append_byte (byte_buffer st) (rx_frame_buffers st ! unat (head_frame_buffer st))]"
    if "bytes_read st \<noteq> 0" "bytes_read st \<noteq> 255"
    using stop_bit_appends [of st1 env st' env'] that r same by auto
  from h r have hr: "StateReadData_handle_isr (p # env) st = Some (st', env')" by simp
  show ?thesis
  proof (intro exI conjI)
    show "StateReadData_handle_isr (p # env) st = Some (st', env')" by (rule hr)
  qed (use a b c in blast)+
qed

lemma replicate_10: "replicate 10 x = [x, x, x, x, x, x, x, x, x, x]"
  by (simp add: numeral_eq_Suc)

lemma replicate_8: "replicate 8 x = [x, x, x, x, x, x, x, x]"
  by (simp add: numeral_eq_Suc)

lemma setup_config:
  "clock_ticks_per_until_start_bit (Config_set 250 19200) = 78"
  by (simp add: Config_set_def Let_def kMaxSpaceBits_def)

theorem C4_sync_byte_checked_not_stored_witness:
  "(\<exists>st' env'.
      StateReadData_handle_isr [rd True True 0, rd True True 100, rd True True 178]
        ((decoder_setup 250 19200 static_init)
           \<lparr>state := READ_DATA, rx_from_lin1 := True, bits_read_in_byte := 9,
            byte_buffer := 0x54\<rparr>) = Some (st', env') \<and>
      error_flags st' = SYNC_BYTE \<and> state st' = DETECT_BREAK \<and>
      rx_frame_buffers st' = rx_frame_buffers (decoder_setup 250 19200 static_init)) \<and>
   (\<exists>st' env'.
      StateReadData_handle_isr [rd True True 0, rd True True 100, rd False True 101, rd True True 200]
        ((decoder_setup 250 19200 static_init)
           \<lparr>state := READ_DATA, rx_from_lin1 := True, bits_read_in_byte := 9,
            byte_buffer := 0x55\<rparr>) = Some (st', env') \<and>
      rx_frame_buffers st' = rx_frame_buffers (decoder_setup 250 19200 static_init) \<and>
      state st' = READ_DATA \<and> bytes_read st' = 1 \<and> error_flags st' = 0) \<and>
   (\<exists>st' env'.
      StateReadData_handle_isr [rd True True 0, rd True True 100, rd False True 101, rd True True 200]
        ((decoder_setup 250 19200 static_init)
           \<lparr>state := READ_DATA, rx_from_lin1 := True, bytes_read := 1, bits_read_in_byte := 9,
            byte_buffer := 0x92\<rparr>) = Some (st', env') \<and>
      frame_bytes (rx_frame_buffers st' ! 0) = [0x92])"
proof -
  let ?s = "decoder_setup 250 19200 static_init"
  let ?a = "?s\<lparr>state := READ_DATA, rx_from_lin1 := True, bits_read_in_byte := 9,
            byte_buffer := 0x54\<rparr>"
  let ?b = "?s\<lparr>state := READ_DATA, rx_from_lin1 := True, bits_read_in_byte := 9,
            byte_buffer := 0x55\<rparr>"
  let ?c = "?s\<lparr>state := READ_DATA, rx_from_lin1 := True, bytes_read := 1, bits_read_in_byte := 9,
            byte_buffer := 0x92\<rparr>"
  let ?e1 = "[rd True True 100, rd True True 178]"
  let ?e2 = "[rd True True 100, rd False True 101, rd True True 200]"
  have cfg: "clock_ticks_per_until_start_bit (config ?a) = 78"
    "clock_ticks_per_until_start_bit (config ?b) = 78"
    "clock_ticks_per_until_start_bit (config ?c) = 78"
    by (simp_all add: decoder_setup_def setup_config Let_def StateDetectBreak_enter_def setupBuffers_def)
  have k1: "clock_reaches (ucast (clock_ticks_per_until_start_bit (config ?a))) ?e1"
    unfolding cfg by (simp add: clock_reaches_def rd_def)
  have k2: "clock_reaches (ucast (clock_ticks_per_until_start_bit (config ?b))) ?e2"
    unfolding cfg by (simp add: clock_reaches_def rd_def)
  have k3: "clock_reaches (ucast (clock_ticks_per_until_start_bit (config ?c))) ?e2"
    unfolding cfg by (simp add: clock_reaches_def rd_def)
  have fa: "bits_read_in_byte ?a > 8" "rx_from_lin1 ?a" "bytes_read ?a = 0" "byte_buffer ?a \<noteq> 0x55"
    "error_flags ?a = 0" "rx_frame_buffers ?a = rx_frame_buffers ?s"
    by (simp_all add: setup_defs)
  have fb: "bits_read_in_byte ?b > 8" "rx_from_lin1 ?b" "bytes_read ?b = 0" "byte_buffer ?b = 0x55"
    "error_flags ?b = 0" "rx_frame_buffers ?b = rx_frame_buffers ?s" "state ?b = READ_DATA"
    "num_bytes (rx_frame_buffers ?b ! unat (head_frame_buffer ?b)) < kMaxBytes"
    by (simp_all add: setup_defs kMaxFrameBuffers_def kMaxBytes_def)
  have fc: "bits_read_in_byte ?c > 8" "rx_from_lin1 ?c" "bytes_read ?c \<noteq> 0" "bytes_read ?c \<noteq> 255"
    "byte_buffer ?c = 0x92" "head_frame_buffer ?c = 0"
    "frame_bytes ((rx_frame_buffers ?c)[0 := append_byte 0x92 (rx_frame_buffers ?c ! 0)] ! 0) = [0x92]"
    by (simp_all add: setup_defs kMaxFrameBuffers_def kMaxBytes_def frame_bytes_def append_byte_def
        replicate_10 replicate_8)
  have hi: "rx1_isHigh (rd True True 0)" by (simp add: rd_def)
  have wb: "waitForRxLow 78 True ?e2 = Some (True, [rd True True 200])"
    by (simp add: waitForRxLow_def isRxHigh_def rd_def)
  have evb: "\<exists>st'. StateReadData_handle_isr (rd True True 0 # ?e2) ?b = Some (st', [rd True True 200])"
    using fb(1) by (simp add: handle_isr_at_stop_bit hi wb StateReadData_stop_bit_def Let_def
        setup_config setup_defs kMaxFrameBuffers_def kMaxBytes_def)
  from C4_sync_byte_checked_not_stored [of ?a "rd True True 0" ?e1] fa hi k1
  have 1: "\<exists>st' env'. StateReadData_handle_isr (rd True True 0 # ?e1) ?a = Some (st', env') \<and>
      error_flags st' = SYNC_BYTE \<and> state st' = DETECT_BREAK \<and>
      rx_frame_buffers st' = rx_frame_buffers ?s"
    by auto
  from C4_sync_byte_checked_not_stored [of ?b "rd True True 0" ?e2] fb hi k2 evb wb cfg(2)
  have 2: "\<exists>st' env'. StateReadData_handle_isr (rd True True 0 # ?e2) ?b = Some (st', env') \<and>
      rx_frame_buffers st' = rx_frame_buffers ?s \<and>
      state st' = READ_DATA \<and> bytes_read st' = 1 \<and> error_flags st' = 0"
    by auto
  from C4_sync_byte_checked_not_stored [of ?c "rd True True 0" ?e2] fc hi k3
  have 3: "\<exists>st' env'. StateReadData_handle_isr (rd True True 0 # ?e2) ?c = Some (st', env') \<and>
      frame_bytes (rx_frame_buffers st' ! 0) = [0x92]"
    by auto
  from 1 2 3 show ?thesis by blast
qed

section \<open>Room in the slot under construction\<close>

text \<open>\<open>StateReadData::enter\<close> empties the slot at the head index, and a handler run that
  stays in Read-Data leaves that slot with fewer than \<open>kMaxBytes\<close> bytes: every
  \<open>append_byte\<close> of the handler stores inside the array.\<close>

lemma states_differ: "DETECT_BREAK \<noteq> READ_DATA"
  by (simp add: DETECT_BREAK_def READ_DATA_def)

lemma enter_resets_slot:
  assumes "StateReadData_enter env st = Some (st', env')"
    and "unat (head_frame_buffer st) < length (rx_frame_buffers st)"
  shows "state st' = READ_DATA \<and> bytes_read st' = 0 \<and> rx_from_lin1 st' \<and>
         head_frame_buffer st' = head_frame_buffer st \<and>
         num_bytes (rx_frame_buffers st' ! unat (head_frame_buffer st')) = 0"
  using assms
  by (auto simp: StateReadData_enter_def Let_def reset_def split: option.splits)

lemma stop_bit_keeps_room:
  assumes "StateReadData_stop_bit r env st = Some (st', env')" and "state st' = READ_DATA"
  shows "num_bytes (rx_frame_buffers st' ! unat (head_frame_buffer st')) < kMaxBytes"
  using assms states_differ
  by (auto simp: StateReadData_stop_bit_def StateReadData_frame_end_def
      StateDetectBreak_enter_def Let_def not_le split: if_splits option.splits)

lemma read_data_keeps_room:
  assumes "StateReadData_handle_isr env st = Some (st', env')"
    and "state st' = READ_DATA"
    and "num_bytes (rx_frame_buffers st ! unat (head_frame_buffer st)) < kMaxBytes"
  shows "num_bytes (rx_frame_buffers st' ! unat (head_frame_buffer st')) < kMaxBytes"
proof (cases env)
  case Nil
  with assms(1) show ?thesis by (simp add: StateReadData_handle_isr_def)
next
  case (Cons p env1)
  show ?thesis
  proof (cases "bits_read_in_byte st > 8")
    case True
    from assms(1) stop_bit_keeps_room [OF _ assms(2)] show ?thesis
      unfolding Cons handle_isr_at_stop_bit [OF True] by blast
  next
    case False
    then have "bits_read_in_byte st = 0 \<or> bits_read_in_byte st \<le> 8" by (simp add: not_less)
    with assms Cons states_differ show ?thesis
      by (auto simp: StateReadData_handle_isr_def StateDetectBreak_enter_def Let_def
          split: if_splits)
  qed
qed

section \<open>The ring buffer under nine pushes\<close>

text \<open>\<open>append_byte\<close> on a frame that is not full adds the byte at the end.\<close>

lemma append_byte_bytes:
  assumes "frame_wf f" and "num_bytes f < kMaxBytes"
  shows "frame_bytes (append_byte v f) = frame_bytes f @ [v]"
    and "frame_wf (append_byte v f)"
    and "unat (num_bytes (append_byte v f)) = Suc (unat (num_bytes f))"
proof -
  from assms have len: "length (bytes f) = 10" and n: "unat (num_bytes f) < 10"
    by (simp_all add: frame_wf_def kMaxBytes_def word_less_nat_alt)
  from n have u: "unat (num_bytes f + 1) = Suc (unat (num_bytes f))"
    by (simp add: unat_word_ariths)
  show "unat (num_bytes (append_byte v f)) = Suc (unat (num_bytes f))"
    using u by (simp add: append_byte_def)
  show "frame_wf (append_byte v f)"
    using len by (simp add: append_byte_def frame_wf_def kMaxBytes_def)
  show "frame_bytes (append_byte v f) = frame_bytes f @ [v]"
    using len n u
    by (simp add: frame_bytes_def append_byte_def take_Suc_conv_app_nth)
qed

lemma foldl_append_bytes:
  "frame_wf f \<Longrightarrow> unat (num_bytes f) + length bs \<le> 10 \<Longrightarrow>
   frame_bytes (foldl (\<lambda>f b. append_byte b f) f bs) = frame_bytes f @ bs \<and>
   frame_wf (foldl (\<lambda>f b. append_byte b f) f bs)"
proof (induction bs arbitrary: f)
  case Nil
  then show ?case by simp
next
  case (Cons b bs)
  from Cons.prems have lt: "num_bytes f < kMaxBytes"
    by (simp add: kMaxBytes_def word_less_nat_alt)
  note a = append_byte_bytes [OF Cons.prems(1) lt, of b]
  from a(3) Cons.prems(2) have "unat (num_bytes (append_byte b f)) + length bs \<le> 10" by simp
  from Cons.IH [OF a(2) this] a(1) show ?case by simp
qed

lemma written_frame:
  assumes "frame_wf f" and "length bs \<le> 10"
  shows "frame_bytes (foldl (\<lambda>f b. append_byte b f) (reset f) bs) = bs"
    and "frame_wf (foldl (\<lambda>f b. append_byte b f) (reset f) bs)"
proof -
  have "frame_wf (reset f)" using assms(1) by (simp add: frame_wf_def reset_def)
  moreover have "unat (num_bytes (reset f)) + length bs \<le> 10"
    using assms(2) by (simp add: reset_def)
  ultimately have "frame_bytes (foldl (\<lambda>f b. append_byte b f) (reset f) bs) = frame_bytes (reset f) @ bs \<and>
    frame_wf (foldl (\<lambda>f b. append_byte b f) (reset f) bs)"
    by (rule foldl_append_bytes)
  then show "frame_bytes (foldl (\<lambda>f b. append_byte b f) (reset f) bs) = bs"
    and "frame_wf (foldl (\<lambda>f b. append_byte b f) (reset f) bs)"
    by (simp_all add: frame_bytes_def reset_def)
qed

lemma unat_succ: "unat ((x :: uint8) + 1) = (unat x + 1) mod 256"
  by (simp add: unat_word_ariths)

lemma unat_succ_of_nat:
  assumes "n < 255"
  shows "unat (of_nat n + 1 :: uint8) = Suc n"
proof -
  have "unat (of_nat n :: uint8) = n" using assms by (simp only: unat_of_nat) simp
  then show ?thesis using assms by (simp only: unat_succ) simp
qed

lemma index_word:
  assumes "h < 8"
  shows "unat (of_nat h :: uint8) = h"
  using assms by (simp only: unat_of_nat) simp

lemma of_nat_index_eq:
  assumes "a < 8" and "b < 8"
  shows "(of_nat a :: uint8) = of_nat b \<longleftrightarrow> a = b"
  using index_word [OF assms(1)] index_word [OF assms(2)] by metis

lemma next_index:
  assumes "h < 8"
  shows "(if (of_nat h + 1 :: uint8) \<ge> kMaxFrameBuffers then 0 else of_nat h + 1) =
         (of_nat (Suc h mod 8) :: uint8)"
proof -
  from assms have u: "unat (of_nat h + 1 :: uint8) = Suc h"
    by (intro unat_succ_of_nat) simp
  show ?thesis
  proof (cases "h = 7")
    case True
    then show ?thesis by (simp add: kMaxFrameBuffers_def)
  next
    case False
    with assms have m: "Suc h mod 8 = Suc h" and lt: "Suc h < 8" by simp_all
    have "unat (of_nat (Suc h) :: uint8) = Suc h" by (rule index_word [OF lt])
    with u have "(of_nat h + 1 :: uint8) = of_nat (Suc h)"
      by (simp only: word_unat_eq_iff)
    moreover have "\<not> (of_nat h + 1 :: uint8) \<ge> kMaxFrameBuffers"
      using lt by (simp only: word_le_nat_alt u kMaxFrameBuffers_def) simp
    ultimately show ?thesis by (simp only: m if_False)
  qed
qed

text \<open>One frame pushed: the slot at the head index holds the frame, the head index
  steps, and when it reaches the tail index the overrun is flagged and the tail index
  steps too.\<close>

lemma push_ring:
  assumes r: "ring st h t e slots" and len: "length bs \<le> 10"
  shows "ring (push_frame bs st) (Suc h mod 8)
           (if Suc h mod 8 = t then Suc t mod 8 else t)
           (if Suc h mod 8 = t then e OR BUFFER_OVERRUN else e)
           (slots[h := bs])"
proof -
  let ?bufs = "rx_frame_buffers st"
  let ?w = "foldl (\<lambda>f b. append_byte b f) (reset (?bufs ! h)) bs"
  from r have hd: "head_frame_buffer st = of_nat h" and tl: "tail_frame_buffer st = of_nat t"
    and h: "h < 8" and t: "t < 8" and e: "error_flags st = e" and l: "length ?bufs = 8"
    and wf: "\<forall>f\<in>set ?bufs. frame_wf f" and sl: "map frame_bytes ?bufs = slots"
    by (simp_all add: ring_def)
  from h l wf have wfh: "frame_wf (?bufs ! h)" by simp
  note w = written_frame [OF wfh len]
  have "unat (of_nat (length bs) + 1 :: uint8) = Suc (length bs)"
    using len by (intro unat_succ_of_nat) simp
  then have nz: "\<not> (of_nat (length bs) + 1 :: uint8) < kMinBytes"
    by (simp only: word_less_nat_alt kMinBytes_def) simp
  have uh: "unat (of_nat h :: uint8) = h" by (rule index_word [OF h])
  have h': "Suc h mod 8 < 8" and t': "Suc t mod 8 < 8" by simp_all
  have eqi: "(of_nat (Suc h mod 8) :: uint8) = of_nat t \<longleftrightarrow> Suc h mod 8 = t"
    by (rule of_nat_index_eq [OF h' t])
  have bufs': "rx_frame_buffers (push_frame bs st) = ?bufs[h := ?w]"
    using nz
    by (simp add: push_frame_def write_frame_def StateReadData_frame_end_def Let_def hd uh
        incrementHeadFrameBuffer_def incrementTailFrameBuffer_def setErrorFlags_def
        StateDetectBreak_enter_def)
  have head': "head_frame_buffer (push_frame bs st) = of_nat (Suc h mod 8)"
    using nz next_index [OF h]
    by (simp add: push_frame_def write_frame_def StateReadData_frame_end_def Let_def hd
        incrementHeadFrameBuffer_def incrementTailFrameBuffer_def setErrorFlags_def
        StateDetectBreak_enter_def)
  have tail': "tail_frame_buffer (push_frame bs st) =
               of_nat (if Suc h mod 8 = t then Suc t mod 8 else t)"
    using nz next_index [OF h] next_index [OF t] eqi
    by (auto simp: push_frame_def write_frame_def StateReadData_frame_end_def Let_def hd tl
        incrementHeadFrameBuffer_def incrementTailFrameBuffer_def setErrorFlags_def
        StateDetectBreak_enter_def)
  have err': "error_flags (push_frame bs st) =
              (if Suc h mod 8 = t then e OR BUFFER_OVERRUN else e)"
    using nz next_index [OF h] eqi
    by (auto simp: push_frame_def write_frame_def StateReadData_frame_end_def Let_def hd tl e
        incrementHeadFrameBuffer_def incrementTailFrameBuffer_def setErrorFlags_def
        StateDetectBreak_enter_def)
  have wf': "\<forall>f\<in>set (?bufs[h := ?w]). frame_wf f"
    using wf w(2) by (auto dest!: set_update_subset_insert [THEN subsetD])
  have sl': "map frame_bytes (?bufs[h := ?w]) = slots[h := bs]"
    using sl w(1) by (simp add: map_update)
  show ?thesis
    unfolding ring_def bufs' head' tail' err'
    using h' t' t l wf' sl' by simp
qed

lemma setup_ring: "ring (decoder_setup k b static_init) 0 0 0 (replicate 8 [])"
  by (simp add: ring_def decoder_setup_def setupBuffers_def static_init_def StateDetectBreak_enter_def
      Let_def kMaxFrameBuffers_def kMaxBytes_def frame_wf_def frame_bytes_def)

lemma clear_ring:
  assumes "ring st h t e slots"
  shows "fst (getAndClearErrorFlags st) = e"
    and "ring (snd (getAndClearErrorFlags st)) h t 0 slots"
  using assms by (simp_all add: ring_def getAndClearErrorFlags_def)

text \<open>One call of \<open>readNextFrame\<close> on a buffer that is not empty returns the slot at
  the tail index and steps the tail index.\<close>

lemma read_ring:
  assumes r: "ring st h t e slots" and ne: "t \<noteq> h" and m: "waitForIsrEnd ms = Some ()"
  shows "\<exists>f st'. readNextFrame ms buffer st = Some (True, f, st') \<and>
           frame_bytes f = slots ! t \<and> ring st' h (Suc t mod 8) e slots"
proof -
  from r have hd: "head_frame_buffer st = of_nat h" and tl: "tail_frame_buffer st = of_nat t"
    and h: "h < 8" and t: "t < 8" and l: "length (rx_frame_buffers st) = 8"
    and sl: "map frame_bytes (rx_frame_buffers st) = slots"
    by (simp_all add: ring_def)
  from ne of_nat_index_eq [OF t h] have d: "tail_frame_buffer st \<noteq> head_frame_buffer st"
    by (simp add: hd tl)
  have ut: "unat (tail_frame_buffer st) = t" unfolding tl by (rule index_word [OF t])
  have fb: "frame_bytes (rx_frame_buffers st ! t) = slots ! t"
    using sl [symmetric] t l by simp
  have "tail_frame_buffer (incrementTailFrameBuffer st) = of_nat (Suc t mod 8)"
    using next_index [OF t] by (simp add: incrementTailFrameBuffer_def Let_def tl)
  with r have "ring (incrementTailFrameBuffer st) h (Suc t mod 8) e slots"
    by (simp add: ring_def incrementTailFrameBuffer_def Let_def)
  with d m fb ut show ?thesis by (simp add: readNextFrame_def)
qed

lemma read_ring_empty:
  assumes "ring st h h e slots" and "waitForIsrEnd ms = Some ()"
  shows "readNextFrame ms buffer st = Some (False, buffer, st)"
  using assms by (simp add: ring_def readNextFrame_def)

lemma push_ring_plus:
  assumes "ring st h t e slots" and "length bs \<le> 10"
  shows "ring (push_frame bs st) ((h + 1) mod 8)
           (if (h + 1) mod 8 = t then (t + 1) mod 8 else t)
           (if (h + 1) mod 8 = t then e OR BUFFER_OVERRUN else e)
           (slots[h := bs])"
  unfolding Suc_eq_plus1 [symmetric] by (rule push_ring [OF assms])

lemma read_ring_plus:
  assumes "ring st h t e slots" and "t \<noteq> h" and "waitForIsrEnd ms = Some ()"
  shows "\<exists>f st'. readNextFrame ms buffer st = Some (True, f, st') \<and>
           frame_bytes f = slots ! t \<and> ring st' h ((t + 1) mod 8) e slots"
  unfolding Suc_eq_plus1 [symmetric] by (rule read_ring [OF assms])


text \<open>Nine frames pushed into the empty buffer and eight calls of \<open>readNextFrame\<close>,
  followed through the ring: the head index ends at 1 and the tail index at 2.\<close>

lemma nine_pushes_then_reads:
  assumes len: "\<forall>bs\<in>set [f1, f2, f3, f4, f5, f6, f7, f8, f9]. length bs \<le> 10"
    and ms: "\<forall>m\<in>set [m1, m2, m3, m4, m5, m6, m7, m8]. waitForIsrEnd m = Some ()"
  shows "error_flags (push_frames [f1, f2, f3, f4, f5, f6, f7] (decoder_setup k b static_init)) = 0 \<and>
         error_flags (push_frames [f1, f2, f3, f4, f5, f6, f7, f8] (decoder_setup k b static_init)) = BUFFER_OVERRUN \<and>
         fst (getAndClearErrorFlags (push_frames [f1, f2, f3, f4, f5, f6, f7, f8, f9] (decoder_setup k b static_init))) = BUFFER_OVERRUN \<and>
         readFrames [m1, m2, m3, m4, m5, m6, m7, m8] buffer
           (snd (getAndClearErrorFlags (push_frames [f1, f2, f3, f4, f5, f6, f7, f8, f9] (decoder_setup k b static_init)))) =
           Some [(True, f3), (True, f4), (True, f5), (True, f6), (True, f7), (True, f8), (True, f9), (False, f9)] \<and>
         error_flags (push_frame f9 (snd (getAndClearErrorFlags
           (push_frames [f1, f2, f3, f4, f5, f6, f7, f8] (decoder_setup k b static_init))))) = BUFFER_OVERRUN"
proof -
  let ?s0 = "decoder_setup k b static_init"
  let ?s1 = "push_frame f1 ?s0"
  let ?s2 = "push_frame f2 ?s1"
  let ?s3 = "push_frame f3 ?s2"
  let ?s4 = "push_frame f4 ?s3"
  let ?s5 = "push_frame f5 ?s4"
  let ?s6 = "push_frame f6 ?s5"
  let ?s7 = "push_frame f7 ?s6"
  let ?s8 = "push_frame f8 ?s7"
  let ?s9 = "push_frame f9 ?s8"
  let ?c = "snd (getAndClearErrorFlags ?s9)"
  from len have l1: "length f1 \<le> 10" and l2: "length f2 \<le> 10" and l3: "length f3 \<le> 10" and l4: "length f4 \<le> 10" and l5: "length f5 \<le> 10" and l6: "length f6 \<le> 10" and l7: "length f7 \<le> 10" and l8: "length f8 \<le> 10" and l9: "length f9 \<le> 10"
    by simp_all
  from ms have w1: "waitForIsrEnd m1 = Some ()" and w2: "waitForIsrEnd m2 = Some ()" and w3: "waitForIsrEnd m3 = Some ()" and w4: "waitForIsrEnd m4 = Some ()" and w5: "waitForIsrEnd m5 = Some ()" and w6: "waitForIsrEnd m6 = Some ()" and w7: "waitForIsrEnd m7 = Some ()" and w8: "waitForIsrEnd m8 = Some ()"
    by simp_all
  have r0: "ring ?s0 0 0 0 [[], [], [], [], [], [], [], []]"
    using setup_ring [of k b] by (simp only: replicate_8)
  have r1: "ring ?s1 1 0 0 [f1, [], [], [], [], [], [], []]"
    using push_ring_plus [OF r0 l1] by (simp add: BUFFER_OVERRUN_def numeral_2_eq_2 [symmetric])
  have r2: "ring ?s2 2 0 0 [f1, f2, [], [], [], [], [], []]"
    using push_ring_plus [OF r1 l2] by (simp add: BUFFER_OVERRUN_def numeral_2_eq_2 [symmetric])
  have r3: "ring ?s3 3 0 0 [f1, f2, f3, [], [], [], [], []]"
    using push_ring_plus [OF r2 l3] by (simp add: BUFFER_OVERRUN_def numeral_2_eq_2 [symmetric])
  have r4: "ring ?s4 4 0 0 [f1, f2, f3, f4, [], [], [], []]"
    using push_ring_plus [OF r3 l4] by (simp add: BUFFER_OVERRUN_def numeral_2_eq_2 [symmetric])
  have r5: "ring ?s5 5 0 0 [f1, f2, f3, f4, f5, [], [], []]"
    using push_ring_plus [OF r4 l5] by (simp add: BUFFER_OVERRUN_def numeral_2_eq_2 [symmetric])
  have r6: "ring ?s6 6 0 0 [f1, f2, f3, f4, f5, f6, [], []]"
    using push_ring_plus [OF r5 l6] by (simp add: BUFFER_OVERRUN_def numeral_2_eq_2 [symmetric])
  have r7: "ring ?s7 7 0 0 [f1, f2, f3, f4, f5, f6, f7, []]"
    using push_ring_plus [OF r6 l7] by (simp add: BUFFER_OVERRUN_def numeral_2_eq_2 [symmetric])
  have r8: "ring ?s8 0 1 BUFFER_OVERRUN [f1, f2, f3, f4, f5, f6, f7, f8]"
    using push_ring_plus [OF r7 l8] by (simp add: BUFFER_OVERRUN_def numeral_2_eq_2 [symmetric])
  have r9: "ring ?s9 1 2 BUFFER_OVERRUN [f9, f2, f3, f4, f5, f6, f7, f8]"
    using push_ring_plus [OF r8 l9] by (simp add: BUFFER_OVERRUN_def numeral_2_eq_2 [symmetric])
  from clear_ring [OF r9] have e9: "fst (getAndClearErrorFlags ?s9) = BUFFER_OVERRUN"
    and c0: "ring ?c 1 2 0 [f9, f2, f3, f4, f5, f6, f7, f8]" by simp_all
  from read_ring_plus [OF c0 _ w1, of buffer] obtain b1 c1
    where q1: "readNextFrame m1 buffer ?c = Some (True, b1, c1)"
      and g1: "frame_bytes b1 = f3" and d1: "ring c1 1 3 0 [f9, f2, f3, f4, f5, f6, f7, f8]"
    by (auto simp: numeral_2_eq_2 [symmetric])
  from read_ring_plus [OF d1 _ w2, of b1] obtain b2 c2
    where q2: "readNextFrame m2 b1 c1 = Some (True, b2, c2)"
      and g2: "frame_bytes b2 = f4" and d2: "ring c2 1 4 0 [f9, f2, f3, f4, f5, f6, f7, f8]"
    by (auto simp: numeral_2_eq_2 [symmetric])
  from read_ring_plus [OF d2 _ w3, of b2] obtain b3 c3
    where q3: "readNextFrame m3 b2 c2 = Some (True, b3, c3)"
      and g3: "frame_bytes b3 = f5" and d3: "ring c3 1 5 0 [f9, f2, f3, f4, f5, f6, f7, f8]"
    by (auto simp: numeral_2_eq_2 [symmetric])
  from read_ring_plus [OF d3 _ w4, of b3] obtain b4 c4
    where q4: "readNextFrame m4 b3 c3 = Some (True, b4, c4)"
      and g4: "frame_bytes b4 = f6" and d4: "ring c4 1 6 0 [f9, f2, f3, f4, f5, f6, f7, f8]"
    by (auto simp: numeral_2_eq_2 [symmetric])
  from read_ring_plus [OF d4 _ w5, of b4] obtain b5 c5
    where q5: "readNextFrame m5 b4 c4 = Some (True, b5, c5)"
      and g5: "frame_bytes b5 = f7" and d5: "ring c5 1 7 0 [f9, f2, f3, f4, f5, f6, f7, f8]"
    by (auto simp: numeral_2_eq_2 [symmetric])
  from read_ring_plus [OF d5 _ w6, of b5] obtain b6 c6
    where q6: "readNextFrame m6 b5 c5 = Some (True, b6, c6)"
      and g6: "frame_bytes b6 = f8" and d6: "ring c6 1 0 0 [f9, f2, f3, f4, f5, f6, f7, f8]"
    by (auto simp: numeral_2_eq_2 [symmetric])
  from read_ring_plus [OF d6 _ w7, of b6] obtain b7 c7
    where q7: "readNextFrame m7 b6 c6 = Some (True, b7, c7)"
      and g7: "frame_bytes b7 = f9" and d7: "ring c7 1 1 0 [f9, f2, f3, f4, f5, f6, f7, f8]"
    by (auto simp: numeral_2_eq_2 [symmetric])
  from read_ring_empty [OF d7 w8, of b7]
  have q8: "readNextFrame m8 b7 c7 = Some (False, b7, c7)" .
  have p7: "push_frames [f1, f2, f3, f4, f5, f6, f7] (decoder_setup k b static_init) = ?s7" and p8: "push_frames [f1, f2, f3, f4, f5, f6, f7, f8] (decoder_setup k b static_init) = ?s8" and p9: "push_frames [f1, f2, f3, f4, f5, f6, f7, f8, f9] (decoder_setup k b static_init) = ?s9"
    by simp_all
  have e7: "error_flags ?s7 = 0" using r7 by (simp add: ring_def)
  have e8: "error_flags ?s8 = BUFFER_OVERRUN" using r8 by (simp add: ring_def)
  have rd: "readFrames [m1, m2, m3, m4, m5, m6, m7, m8] buffer ?c = Some [(True, f3), (True, f4), (True, f5), (True, f6), (True, f7), (True, f8), (True, f9), (False, f9)]"
    by (simp add: q1 q2 q3 q4 q5 q6 q7 q8 g1 g2 g3 g4 g5 g6 g7)
  from clear_ring(2) [OF r8] have c8: "ring (snd (getAndClearErrorFlags ?s8)) 0 1 0 [f1, f2, f3, f4, f5, f6, f7, f8]" .
  have r9': "ring (push_frame f9 (snd (getAndClearErrorFlags ?s8))) 1 2 BUFFER_OVERRUN [f9, f2, f3, f4, f5, f6, f7, f8]"
    using push_ring_plus [OF c8 l9] by (simp add: BUFFER_OVERRUN_def numeral_2_eq_2 [symmetric])
  then have e9': "error_flags (push_frame f9 (snd (getAndClearErrorFlags ?s8))) = BUFFER_OVERRUN"
    by (simp add: ring_def)
  show ?thesis unfolding p7 p8 p9 using e7 e8 e9 rd e9' by simp
qed

text \<open>C1, as the code has it: after the initialization, nine frames of at most
  \<open>kMaxBytes\<close> bytes pushed without a pop leave no error after the seventh push and the
  buffer-overrun flag after the eighth; the drained mask is the buffer-overrun bit alone;
  the next seven calls of \<open>readNextFrame\<close> return the third to the ninth frame in push
  order and the eighth call returns false, the caller's buffer still holding the ninth
  frame. The first and the second frame are not returned. The ninth push raises the flag
  a second time: with the mask drained after the eighth push, the ninth push sets the
  buffer-overrun bit again.\<close>

theorem C1_nine_pushes_keep_seven:
  assumes len: "\<forall>bs\<in>set [f1, f2, f3, f4, f5, f6, f7, f8, f9]. length bs \<le> 10"
    and ms: "\<forall>m\<in>set [m1, m2, m3, m4, m5, m6, m7, m8]. waitForIsrEnd m = Some ()"
  shows "error_flags (push_frames [f1, f2, f3, f4, f5, f6, f7] (decoder_setup k b static_init)) = 0 \<and>
         error_flags (push_frames [f1, f2, f3, f4, f5, f6, f7, f8] (decoder_setup k b static_init)) = BUFFER_OVERRUN \<and>
         fst (getAndClearErrorFlags (push_frames [f1, f2, f3, f4, f5, f6, f7, f8, f9] (decoder_setup k b static_init))) = BUFFER_OVERRUN \<and>
         readFrames [m1, m2, m3, m4, m5, m6, m7, m8] buffer
           (snd (getAndClearErrorFlags (push_frames [f1, f2, f3, f4, f5, f6, f7, f8, f9] (decoder_setup k b static_init)))) =
           Some [(True, f3), (True, f4), (True, f5), (True, f6), (True, f7), (True, f8), (True, f9), (False, f9)] \<and>
         error_flags (push_frame f9 (snd (getAndClearErrorFlags
           (push_frames [f1, f2, f3, f4, f5, f6, f7, f8] (decoder_setup k b static_init))))) = BUFFER_OVERRUN"
  using len ms by (rule nine_pushes_then_reads)

theorem C1_nine_pushes_keep_seven_witness:
  "error_flags (push_frames [[1], [2], [3], [4], [5], [6], [7]] (decoder_setup 250 19200 static_init)) = 0 \<and>
   error_flags (push_frames [[1], [2], [3], [4], [5], [6], [7], [8]] (decoder_setup 250 19200 static_init)) = BUFFER_OVERRUN \<and>
   fst (getAndClearErrorFlags (push_frames [[1], [2], [3], [4], [5], [6], [7], [8], [9]] (decoder_setup 250 19200 static_init))) = BUFFER_OVERRUN \<and>
   readFrames [[0, 1], [0, 1], [0, 1], [0, 1], [0, 1], [0, 1], [0, 1], [0, 1]] \<lparr>bytes = [0, 0, 0, 0, 0, 0, 0, 0, 0, 0], num_bytes = 0\<rparr>
     (snd (getAndClearErrorFlags (push_frames [[1], [2], [3], [4], [5], [6], [7], [8], [9]] (decoder_setup 250 19200 static_init)))) =
   Some [(True, [3]), (True, [4]), (True, [5]), (True, [6]), (True, [7]), (True, [8]), (True, [9]), (False, [9])] \<and>
   error_flags (push_frame [9] (snd (getAndClearErrorFlags
     (push_frames [[1], [2], [3], [4], [5], [6], [7], [8]] (decoder_setup 250 19200 static_init))))) = BUFFER_OVERRUN"
proof -
  have l: "\<forall>bs\<in>set [[1 :: uint8], [2 :: uint8], [3 :: uint8], [4 :: uint8], [5 :: uint8], [6 :: uint8], [7 :: uint8], [8 :: uint8], [9 :: uint8]]. length bs \<le> 10"
    by simp
  have m: "\<forall>m\<in>set [[0, 1 :: uint8], [0, 1 :: uint8], [0, 1 :: uint8], [0, 1 :: uint8], [0, 1 :: uint8], [0, 1 :: uint8], [0, 1 :: uint8], [0, 1 :: uint8]]. waitForIsrEnd m = Some ()"
    by (simp add: waitForIsrEnd_def)
  from C1_nine_pushes_keep_seven [OF l m] show ?thesis .
qed

text \<open>C1 with eight frames read back and a single overrun does not hold: on these nine
  one-byte frames the eight calls do not return the eight most recent frames, they return
  seven frames and then false; and the overrun is raised twice, by the eighth push and,
  after the mask is drained to 0, again by the ninth.\<close>

theorem C1_eight_frames_counterexample:
  "readFrames [[0, 1], [0, 1], [0, 1], [0, 1], [0, 1], [0, 1], [0, 1], [0, 1]] \<lparr>bytes = [0, 0, 0, 0, 0, 0, 0, 0, 0, 0], num_bytes = 0\<rparr>
     (snd (getAndClearErrorFlags (push_frames [[1], [2], [3], [4], [5], [6], [7], [8], [9]] (decoder_setup 250 19200 static_init)))) \<noteq>
   Some [(True, [2]), (True, [3]), (True, [4]), (True, [5]), (True, [6]), (True, [7]), (True, [8]), (True, [9])] \<and>
   readFrames [[0, 1], [0, 1], [0, 1], [0, 1], [0, 1], [0, 1], [0, 1], [0, 1]] \<lparr>bytes = [0, 0, 0, 0, 0, 0, 0, 0, 0, 0], num_bytes = 0\<rparr>
     (snd (getAndClearErrorFlags (push_frames [[1], [2], [3], [4], [5], [6], [7], [8], [9]] (decoder_setup 250 19200 static_init)))) =
   Some [(True, [3]), (True, [4]), (True, [5]), (True, [6]), (True, [7]), (True, [8]), (True, [9]), (False, [9])] \<and>
   error_flags (push_frames [[1], [2], [3], [4], [5], [6], [7], [8]] (decoder_setup 250 19200 static_init)) = BUFFER_OVERRUN \<and>
   error_flags (snd (getAndClearErrorFlags
     (push_frames [[1], [2], [3], [4], [5], [6], [7], [8]] (decoder_setup 250 19200 static_init)))) = 0 \<and>
   error_flags (push_frame [9] (snd (getAndClearErrorFlags
     (push_frames [[1], [2], [3], [4], [5], [6], [7], [8]] (decoder_setup 250 19200 static_init))))) = BUFFER_OVERRUN"
proof -
  have l: "\<forall>bs\<in>set [[1 :: uint8], [2 :: uint8], [3 :: uint8], [4 :: uint8], [5 :: uint8], [6 :: uint8], [7 :: uint8], [8 :: uint8], [9 :: uint8]]. length bs \<le> (10 :: nat)"
    by simp
  have m: "\<forall>m\<in>set [[0, 1 :: uint8], [0, 1 :: uint8], [0, 1 :: uint8], [0, 1 :: uint8], [0, 1 :: uint8], [0, 1 :: uint8], [0, 1 :: uint8], [0, 1 :: uint8]]. waitForIsrEnd m = Some ()"
    by (simp add: waitForIsrEnd_def)
  from nine_pushes_then_reads [OF l m] show ?thesis
    by (simp add: getAndClearErrorFlags_def)
qed

end
